theory Spec2Isabelle
  imports Main "HOL-Library.Word"
begin

section \<open>JavaScript strings\<close>

text \<open>
  A JavaScript string is a sequence of 16-bit code units. The regular expressions of the
  source carry no \<open>u\<close> flag, so they work on code units as well. ASCII literals of the
  source are written \<open>js ''...''\<close>.
\<close>

type_synonym jschar = "16 word"
type_synonym jsstring = "jschar list"

definition js :: "string \<Rightarrow> jsstring" where
  "js s = map of_char s"

text \<open>
  The class \<open>\s\<close> of a regular expression and the characters removed by
  \<open>String.prototype.trim\<close> are the same set: WhiteSpace and LineTerminator of ECMAScript.
\<close>

definition isLineTerminator :: "jschar \<Rightarrow> bool" where
  "isLineTerminator c \<longleftrightarrow> c = 0x0A \<or> c = 0x0D \<or> c = 0x2028 \<or> c = 0x2029"

definition isSpace :: "jschar \<Rightarrow> bool" where
  "isSpace c \<longleftrightarrow>
     c = 0x09 \<or> c = 0x0B \<or> c = 0x0C \<or> c = 0x20 \<or> c = 0xA0 \<or> c = 0x1680 \<or>
     (0x2000 \<le> c \<and> c \<le> 0x200A) \<or> c = 0x202F \<or> c = 0x205F \<or> c = 0x3000 \<or>
     c = 0xFEFF \<or> isLineTerminator c"

definition trim :: "jsstring \<Rightarrow> jsstring" where
  "trim s = rev (dropWhile isSpace (rev (dropWhile isSpace s)))"

definition isBlank :: "jsstring \<Rightarrow> bool" where
  "isBlank s \<longleftrightarrow> trim s = []"

definition isAsciiLetter :: "jschar \<Rightarrow> bool" where
  "isAsciiLetter c \<longleftrightarrow> (0x41 \<le> c \<and> c \<le> 0x5A) \<or> (0x61 \<le> c \<and> c \<le> 0x7A)"

definition isDigit :: "jschar \<Rightarrow> bool" where
  "isDigit c \<longleftrightarrow> 0x30 \<le> c \<and> c \<le> 0x39"

text \<open>The class \<open>\w\<close>, which decides the word boundaries \<open>\b\<close>.\<close>

definition isWordChar :: "jschar \<Rightarrow> bool" where
  "isWordChar c \<longleftrightarrow> isAsciiLetter c \<or> isDigit c \<or> c = 0x5F"

text \<open>
  Case folding of the \<open>i\<close> flag, as far as it can make a character equal to an ASCII
  letter of a pattern: without the \<open>u\<close> flag no character outside ASCII folds into ASCII.
\<close>

definition canonicalize :: "jschar \<Rightarrow> jschar" where
  "canonicalize c = (if 0x61 \<le> c \<and> c \<le> 0x7A then c - 0x20 else c)"

fun startsWith :: "'a list \<Rightarrow> 'a list \<Rightarrow> bool" where
  "startsWith [] u = True"
| "startsWith (p # ps) [] = False"
| "startsWith (p # ps) (c # cs) = (p = c \<and> startsWith ps cs)"

fun containsStr :: "'a list \<Rightarrow> 'a list \<Rightarrow> bool" where
  "containsStr p [] = startsWith p []"
| "containsStr p (c # cs) = (startsWith p (c # cs) \<or> containsStr p cs)"

section \<open>Extraction of the STATE block\<close>

text \<open>
  \<open>extractStateYaml\<close> runs \<open>/```[a-zA-Z]*\n([\s\S]*?)```/g\<close> over the reply. One
  \<open>exec\<close> tries every start position from the left. At a position the opening fence is
  three backticks, the letters that follow (a greedy star that has nothing to give back,
  since a line feed is no letter) and one line feed; the lazy group then ends at the first
  three backticks that follow. The result is the group and the text after the match, where
  the next \<open>exec\<close> resumes.
\<close>

definition fence :: jsstring where
  "fence = [0x60, 0x60, 0x60]"

fun splitAtFence :: "jsstring \<Rightarrow> (jsstring \<times> jsstring) option" where
  "splitAtFence [] = None"
| "splitAtFence (c # cs) =
     (if startsWith fence (c # cs) then Some ([], drop 3 (c # cs))
      else map_option (\<lambda>(a, b). (c # a, b)) (splitAtFence cs))"

definition matchHere :: "jsstring \<Rightarrow> (jsstring \<times> jsstring) option" where
  "matchHere u =
     (if startsWith fence u then
        (case dropWhile isAsciiLetter (drop 3 u) of
           [] \<Rightarrow> None
         | c # w \<Rightarrow> if c = 0x0A then splitAtFence w else None)
      else None)"

fun codeBlockExec :: "jsstring \<Rightarrow> (jsstring \<times> jsstring) option" where
  "codeBlockExec [] = None"
| "codeBlockExec (c # cs) =
     (case matchHere (c # cs) of Some r \<Rightarrow> Some r | None \<Rightarrow> codeBlockExec cs)"

text \<open>
  \<open>/^\s*STATE\s*:/m\<close>: with the \<open>m\<close> flag \<open>^\<close> holds at the start of the text and
  after every line terminator; \<open>\s*\<close> is greedy and has nothing to give back, since
  neither \<open>S\<close> nor the colon is white space.
\<close>

definition stateAt :: "jsstring \<Rightarrow> bool" where
  "stateAt u =
     (let v = dropWhile isSpace u in
      startsWith (js ''STATE'') v \<and>
      (case dropWhile isSpace (drop 5 v) of [] \<Rightarrow> False | c # w \<Rightarrow> c = 0x3A))"

fun stateTestFrom :: "bool \<Rightarrow> jsstring \<Rightarrow> bool" where
  "stateTestFrom bol [] = False"
| "stateTestFrom bol (c # cs) =
     ((bol \<and> stateAt (c # cs)) \<or> stateTestFrom (isLineTerminator c) cs)"

definition hasStateLine :: "jsstring \<Rightarrow> bool" where
  "hasStateLine block = stateTestFrom True block"

lemma splitAtFence_length:
  "splitAtFence u = Some (a, b) \<Longrightarrow> length b < length u"
  by (induction u arbitrary: a b) (auto split: if_splits)

lemma matchHere_length:
  "matchHere u = Some (a, b) \<Longrightarrow> length b < length u"
proof -
  assume m: "matchHere u = Some (a, b)"
  then obtain c w where d: "dropWhile isAsciiLetter (drop 3 u) = c # w"
    and s: "splitAtFence w = Some (a, b)"
    by (auto simp: matchHere_def split: if_splits list.splits)
  have "length (c # w) \<le> length (drop 3 u)"
    unfolding d [symmetric] by (rule length_dropWhile_le)
  with splitAtFence_length [OF s] show ?thesis by simp
qed

lemma codeBlockExec_length:
  "codeBlockExec u = Some (a, b) \<Longrightarrow> length b < length u"
proof (induction u)
  case Nil
  then show ?case by simp
next
  case (Cons c cs)
  show ?case
  proof (cases "matchHere (c # cs)")
    case None
    with Cons show ?thesis by force
  next
    case (Some r)
    with Cons.prems have "matchHere (c # cs) = Some (a, b)" by simp
    then show ?thesis by (rule matchHere_length)
  qed
qed

text \<open>The \<open>while\<close> loop of \<open>extractStateYaml\<close>, with its variable \<open>lastYaml\<close>.\<close>

function extractLoop :: "jsstring \<Rightarrow> jsstring option \<Rightarrow> jsstring option" where
  "extractLoop text lastYaml =
     (case codeBlockExec text of
        None \<Rightarrow> lastYaml
      | Some (block, rest) \<Rightarrow>
          extractLoop rest (if hasStateLine block then Some (trim block) else lastYaml))"
  by pat_completeness auto
termination
  by (relation "measure (\<lambda>(text, lastYaml). length text)")
     (auto dest: codeBlockExec_length)

declare extractLoop.simps [simp del]

definition extractStateYaml :: "jsstring \<Rightarrow> jsstring option" where
  "extractStateYaml text = extractLoop text None"

section \<open>The session controller\<close>

datatype role = System | User | Assistant

record message =
  role :: role
  content :: jsstring

record config =
  baseUrl :: jsstring
  model :: jsstring
  apiKey :: jsstring

text \<open>
  The state of the component \<open>App\<close>: its state hooks, the reference \<open>lastActionRef\<close>, and
  the three slots of \<open>localStorage\<close> (\<open>None\<close> is a slot never written).
\<close>

record app =
  settings :: config
  messages :: "message list"
  input :: jsstring
  busy :: bool
  error :: jsstring
  lastAction :: int
  drawerOpen :: bool
  lastYaml :: jsstring
  storedSettings :: "config option"
  storedTranscript :: "message list option"
  storedYaml :: "jsstring option"

text \<open>The state before anything is loaded or done: the defaults of the state hooks.\<close>

definition initialApp :: app where
  "initialApp =
     \<lparr>settings = \<lparr>baseUrl = js ''https://api.openai.com/v1'', model = js ''gpt-4o-mini'',
                   apiKey = []\<rparr>,
      messages = [], input = [], busy = False, error = [], lastAction = 0,
      drawerOpen = False, lastYaml = [],
      storedSettings = None, storedTranscript = None, storedYaml = None\<rparr>"

text \<open>What \<open>callChatCompletions\<close> is given, and what comes back.\<close>

record request =
  target :: config
  payload :: "message list"

datatype failure = Failure (failName: jsstring) (failMessage: jsstring)

datatype outcome = Reply jsstring | Failed failure

text \<open>
  \<open>String(e.message || e)\<close> for an error object: its message, and when that is empty what
  \<open>Error.prototype.toString\<close> gives then, the name.
\<close>

definition errorText :: "failure \<Rightarrow> jsstring" where
  "errorText e = (if failMessage e \<noteq> [] then failMessage e else failName e)"

definition canAct :: "int \<Rightarrow> app \<Rightarrow> bool \<times> app" where
  "canAct now s =
     (if now - lastAction s < 300 then (False, s) else (True, s\<lparr>lastAction := now\<rparr>))"

definition ensureSettings :: "config \<Rightarrow> failure option" where
  "ensureSettings c =
     (if baseUrl c = [] then
        Some (Failure (js ''Error'') (js ''Base URL is required''))
      else if containsStr (js ''openai.com'') (baseUrl c) \<and> apiKey c = [] then
        Some (Failure (js ''Error'') (js ''API key required for OpenAI base URL''))
      else None)"

text \<open>\<open>/^STATE$/i\<close> on the trimmed text, and \<open>/\bSTATE\b/i\<close> on the text as sent.\<close>

definition isStateCommand :: "jsstring \<Rightarrow> bool" where
  "isStateCommand t \<longleftrightarrow> map canonicalize t = js ''STATE''"

definition wordEndsHere :: "jsstring \<Rightarrow> bool" where
  "wordEndsHere u = (case u of [] \<Rightarrow> True | c # w \<Rightarrow> \<not> isWordChar c)"

fun mentionsFrom :: "bool \<Rightarrow> jsstring \<Rightarrow> bool" where
  "mentionsFrom afterWord [] = False"
| "mentionsFrom afterWord (c # cs) =
     ((\<not> afterWord \<and> startsWith (js ''STATE'') (map canonicalize (take 5 (c # cs)))
        \<and> wordEndsHere (drop 5 (c # cs)))
      \<or> mentionsFrom (isWordChar c) cs)"

definition mentionsState :: "jsstring \<Rightarrow> bool" where
  "mentionsState t = mentionsFrom False t"

text \<open>
  \<open>sendUser\<close> is an async function. \<open>sendUserSubmit\<close> is its run up to the call of
  \<open>callChatCompletions\<close>: it returns the new state and the request handed to the
  collaborator, \<open>None\<close> when the collaborator is not invoked. \<open>sendUserResume\<close> is the
  rest of the function, run when the call settles, on the state of that moment; the
  text of the submission is a variable of the closure.
  The handler reads \<open>messages\<close>, \<open>busy\<close> and \<open>lastYaml\<close> from the render that created it,
  taken here to be the current state.
\<close>

definition sendUserSubmit :: "jsstring \<Rightarrow> int \<Rightarrow> app \<Rightarrow> app \<times> request option" where
  "sendUserSubmit text now s =
     (if trim text = [] then (s, None)
      else if busy s then (s, None)
      else case canAct now s of
        (False, s1) \<Rightarrow> (s1, None)
      | (True, s1) \<Rightarrow>
          if isStateCommand (trim text) \<and> lastYaml s1 \<noteq> [] \<and> trim (lastYaml s1) \<noteq> [] then
            (s1\<lparr>drawerOpen := \<not> drawerOpen s1, input := []\<rparr>, None)
          else
            (let s2 = s1\<lparr>error := []\<rparr> in
             case ensureSettings (settings s2) of
               Some e \<Rightarrow> (s2\<lparr>error := errorText e, busy := False\<rparr>, None)
             | None \<Rightarrow>
                 (let next = messages s2 @ [\<lparr>role = User, content = text\<rparr>] in
                  (s2\<lparr>messages := next, busy := True, input := []\<rparr>,
                   Some \<lparr>target = settings s2, payload = next\<rparr>))))"

definition applyYaml :: "jsstring option \<Rightarrow> app \<Rightarrow> app option" where
  "applyYaml yaml s =
     (case yaml of
        None \<Rightarrow> None
      | Some y \<Rightarrow> if y = [] then None else Some (s\<lparr>lastYaml := y, drawerOpen := True\<rparr>))"

definition sendUserResume :: "jsstring \<Rightarrow> outcome \<Rightarrow> app \<Rightarrow> app" where
  "sendUserResume text r s =
     (case r of
        Reply assistantText \<Rightarrow>
          (let s1 = (case applyYaml (extractStateYaml assistantText) s of
                       Some s' \<Rightarrow> s'
                     | None \<Rightarrow>
                         if mentionsState text then s\<lparr>drawerOpen := False, lastYaml := []\<rparr>
                         else s)
           in s1\<lparr>messages := messages s1 @ [\<lparr>role = Assistant, content = assistantText\<rparr>],
                 busy := False\<rparr>)
      | Failed e \<Rightarrow> s\<lparr>error := errorText e, busy := False\<rparr>)"

text \<open>
  \<open>startSession\<close>, split in the same way. The controller prompt is a long constant of
  the source whose text no property here depends on; it is the parameter \<open>prompt\<close>.
\<close>

definition startSessionSubmit :: "jsstring \<Rightarrow> int \<Rightarrow> app \<Rightarrow> app \<times> request option" where
  "startSessionSubmit prompt now s =
     (if busy s then (s, None)
      else case canAct now s of
        (False, s1) \<Rightarrow> (s1, None)
      | (True, s1) \<Rightarrow>
          (let s2 = s1\<lparr>error := []\<rparr> in
           case ensureSettings (settings s2) of
             Some e \<Rightarrow> (s2\<lparr>error := errorText e, busy := False\<rparr>, None)
           | None \<Rightarrow>
               (let seed = [\<lparr>role = System, content = prompt\<rparr>,
                            \<lparr>role = User, content = js ''Start. Please begin at Stage 0.''\<rparr>] in
                (s2\<lparr>messages := seed, busy := True\<rparr>,
                 Some \<lparr>target = settings s2, payload = seed\<rparr>))))"

definition startSessionResume :: "outcome \<Rightarrow> app \<Rightarrow> app" where
  "startSessionResume r s =
     (case r of
        Reply assistantText \<Rightarrow>
          (let s1 = (case applyYaml (extractStateYaml assistantText) s of
                       Some s' \<Rightarrow> s'
                     | None \<Rightarrow> s)
           in s1\<lparr>messages := messages s1 @ [\<lparr>role = Assistant, content = assistantText\<rparr>],
                 busy := False\<rparr>)
      | Failed e \<Rightarrow> s\<lparr>error := errorText e, busy := False\<rparr>)"

definition resetSession :: "app \<Rightarrow> app" where
  "resetSession s = s\<lparr>messages := [], lastYaml := [], drawerOpen := False, error := []\<rparr>"

text \<open>
  The two persistence effects run after a render in which their dependency changed:
  \<open>saveTranscript(messages)\<close> and \<open>saveLastYaml(lastYaml || "")\<close>. A write that fails is
  swallowed by the source; here every write succeeds.
\<close>

definition persistEffects :: "app \<Rightarrow> app \<Rightarrow> app" where
  "persistEffects old new =
     new\<lparr>storedTranscript :=
           (if messages new \<noteq> messages old then Some (messages new) else storedTranscript new),
         storedYaml :=
           (if lastYaml new \<noteq> lastYaml old then Some (lastYaml new) else storedYaml new)\<rparr>"

text \<open>
  The actions of the controller as the user triggers them, each followed by the render and
  its effects; \<open>settle\<close> is the completion of the outstanding call, whose closure is
  \<open>AfterStart\<close> or \<open>AfterSend text\<close>.
\<close>

datatype action = StartSession | SendUser jsstring | ResetSession

datatype pending = AfterStart | AfterSend jsstring

definition perform :: "jsstring \<Rightarrow> action \<Rightarrow> int \<Rightarrow> app \<Rightarrow> app \<times> request option" where
  "perform prompt a now s =
     (case a of
        StartSession \<Rightarrow>
          (case startSessionSubmit prompt now s of (s', r) \<Rightarrow> (persistEffects s s', r))
      | SendUser text \<Rightarrow>
          (case sendUserSubmit text now s of (s', r) \<Rightarrow> (persistEffects s s', r))
      | ResetSession \<Rightarrow> (persistEffects s (resetSession s), None))"

definition settle :: "pending \<Rightarrow> outcome \<Rightarrow> app \<Rightarrow> app" where
  "settle k r s =
     (case k of
        AfterStart \<Rightarrow> persistEffects s (startSessionResume r s)
      | AfterSend text \<Rightarrow> persistEffects s (sendUserResume text r s))"

text \<open>An example state: the settings of a local endpoint, which needs no key.\<close>

definition localApp :: app where
  "localApp = initialApp\<lparr>settings := \<lparr>baseUrl = js ''http://localhost:11434/v1'',
     model = js ''llama3'', apiKey = []\<rparr>\<rparr>"

section \<open>The progress parser\<close>

text \<open>
  \<open>Number\<close> of a string of decimal digits. A JavaScript number is a double: up to
  \<open>2^53\<close> the value is the integer itself; what the rounding gives beyond is not modelled.
\<close>

datatype number = Exactly nat | Beyond

definition digitsValue :: "jsstring \<Rightarrow> nat" where
  "digitsValue ds = foldl (\<lambda>n c. 10 * n + (unat c - 48)) 0 ds"

definition toNumber :: "jsstring \<Rightarrow> number" where
  "toNumber ds = (if digitsValue ds \<le> 9007199254740992 then Exactly (digitsValue ds) else Beyond)"

record progress =
  current :: "number option"
  total :: number

text \<open>
  \<open>/progress:\s*{[^}]*KEY:\s*(\d+)/\<close> for the two keys. \<open>digitsAfterKey\<close> is the tail
  \<open>KEY:\s*(\d+)\<close> of the pattern at one position; \<open>lastKeyMatch\<close> is \<open>[^}]*\<close> followed by
  that tail: the star is greedy, so of the positions it can reach (those up to the first
  closing brace) the rightmost one where the tail matches is taken; \<open>progressExec\<close> tries
  the start positions from the left.
\<close>

definition digitsAfterKey :: "jsstring \<Rightarrow> jsstring \<Rightarrow> jsstring option" where
  "digitsAfterKey key u =
     (if startsWith key u then
        (let ds = takeWhile isDigit (dropWhile isSpace (drop (length key) u))
         in if ds = [] then None else Some ds)
      else None)"

fun lastKeyMatch :: "jsstring \<Rightarrow> jsstring \<Rightarrow> jsstring option" where
  "lastKeyMatch key [] = digitsAfterKey key []"
| "lastKeyMatch key (c # cs) =
     (if c = 0x7D then digitsAfterKey key (c # cs)
      else case lastKeyMatch key cs of
        Some ds \<Rightarrow> Some ds
      | None \<Rightarrow> digitsAfterKey key (c # cs))"

definition progressAt :: "jsstring \<Rightarrow> jsstring \<Rightarrow> jsstring option" where
  "progressAt key u =
     (if startsWith (js ''progress:'') u then
        (case dropWhile isSpace (drop 9 u) of
           [] \<Rightarrow> None
         | c # w \<Rightarrow> if c = 0x7B then lastKeyMatch key w else None)
      else None)"

fun progressExec :: "jsstring \<Rightarrow> jsstring \<Rightarrow> jsstring option" where
  "progressExec key [] = None"
| "progressExec key (c # cs) =
     (case progressAt key (c # cs) of Some ds \<Rightarrow> Some ds | None \<Rightarrow> progressExec key cs)"

definition parseStageProgress :: "jsstring option \<Rightarrow> progress" where
  "parseStageProgress yamlText =
     (case yamlText of
        None \<Rightarrow> \<lparr>current = None, total = Exactly 8\<rparr>
      | Some y \<Rightarrow>
          if y = [] then \<lparr>current = None, total = Exactly 8\<rparr>
          else
            \<lparr>current = map_option toNumber (progressExec (js ''current_stage:'') y),
             total = (case progressExec (js ''stages_total:'') y of
                        Some ds \<Rightarrow> toNumber ds
                      | None \<Rightarrow> Exactly 8)\<rparr>)"

text \<open>
  The layout that the two patterns look for, said without the matcher:
  \<open>firstMappingHas key y ds\<close> holds when the first \<open>progress:\<close> of the text \<open>y\<close> is followed,
  after optional white space, by an opening brace, and the text after the brace reaches
  \<open>key\<close>, optional white space and the numeral \<open>ds\<close> without passing a closing brace;
  the numeral ends there, and \<open>key\<close> does not occur again before the next closing brace.
\<close>

definition firstMappingHas :: "jsstring \<Rightarrow> jsstring \<Rightarrow> jsstring \<Rightarrow> bool" where
  "firstMappingHas key y ds \<longleftrightarrow>
     (\<exists>pre ws seg ws' rest.
        y = pre @ js ''progress:'' @ ws @ 0x7B # seg @ key @ ws' @ ds @ rest \<and>
        \<not> containsStr (js ''progress:'') pre \<and>
        (\<forall>c\<in>set ws. isSpace c) \<and> 0x7D \<notin> set seg \<and>
        (\<forall>c\<in>set ws'. isSpace c) \<and> ds \<noteq> [] \<and> (\<forall>c\<in>set ds. isDigit c) \<and>
        (rest = [] \<or> \<not> isDigit (hd rest)) \<and>
        \<not> containsStr key (takeWhile (\<lambda>c. c \<noteq> 0x7D) rest))"

section \<open>Fenced regions, as the specification describes them\<close>

text \<open>
  A fenced region opens with a marker of three backticks. What stands between the marker
  and the end of its line is the language tag: it is optional and ignored, and it holds no
  backtick. The inner text begins on the next line and runs to the next three backticks,
  the closing marker. \<open>fencedAt u tag b r\<close> says that the text \<open>u\<close> begins with such a
  region, \<open>tag\<close> being its tag, \<open>b\<close> its inner text and \<open>r\<close> the text after its closing
  marker. \<open>fencedRegions t rs\<close> says that \<open>rs\<close> are the regions of \<open>t\<close> read from the left,
  each with its tag and its inner text, each opening at the first place where a region can
  open after the previous one has closed. A region qualifies when the pattern
  \<open>\s*STATE\s*:\<close> matches at the start of one of the lines of its inner text.
\<close>

definition fencedAt :: "jsstring \<Rightarrow> jsstring \<Rightarrow> jsstring \<Rightarrow> jsstring \<Rightarrow> bool" where
  "fencedAt u tag b r \<longleftrightarrow>
     u = fence @ tag @ 0x0A # b @ fence @ r \<and> 0x0A \<notin> set tag \<and> 0x60 \<notin> set tag \<and>
     (\<forall>i<length b. \<not> startsWith fence (drop i (b @ fence)))"

inductive fencedRegions :: "jsstring \<Rightarrow> (jsstring \<times> jsstring) list \<Rightarrow> bool" where
  noRegion: "(\<forall>i tag b r. \<not> fencedAt (drop i t) tag b r) \<Longrightarrow> fencedRegions t []"
| nextRegion: "fencedAt (drop i t) tag b r \<Longrightarrow>
     (\<forall>j<i. \<forall>tag' b' r'. \<not> fencedAt (drop j t) tag' b' r') \<Longrightarrow>
     fencedRegions r rs \<Longrightarrow> fencedRegions t ((tag, b) # rs)"

definition qualifies :: "jsstring \<Rightarrow> bool" where
  "qualifies b \<longleftrightarrow>
     (\<exists>pre ws1 ws2 post.
        b = pre @ ws1 @ js ''STATE'' @ ws2 @ 0x3A # post \<and>
        (pre = [] \<or> isLineTerminator (last pre)) \<and>
        (\<forall>c\<in>set ws1. isSpace c) \<and> (\<forall>c\<in>set ws2. isSpace c))"

definition lastQualifying :: "jsstring list \<Rightarrow> jsstring option" where
  "lastQualifying bs =
     (case filter qualifies bs of [] \<Rightarrow> None | q # qs \<Rightarrow> Some (trim (last (q # qs))))"

text \<open>
  The tags that the regular expression of the source lets through are those of ASCII
  letters (\<open>yaml\<close>, \<open>json\<close>, none at all). \<open>plainTags rs\<close> says that every region of \<open>rs\<close>
  has such a tag, and \<open>plainAt u b r\<close> that \<open>u\<close> begins with a fenced region that has one.
\<close>

definition plainTags :: "(jsstring \<times> jsstring) list \<Rightarrow> bool" where
  "plainTags rs \<longleftrightarrow> (\<forall>(tag, b)\<in>set rs. \<forall>c\<in>set tag. isAsciiLetter c)"

definition plainAt :: "jsstring \<Rightarrow> jsstring \<Rightarrow> jsstring \<Rightarrow> bool" where
  "plainAt u b r \<longleftrightarrow> (\<exists>tag. fencedAt u tag b r \<and> (\<forall>c\<in>set tag. isAsciiLetter c))"

text \<open>The groups of the successive matches of the regular expression of the source.\<close>

function codeBlocks :: "jsstring \<Rightarrow> jsstring list" where
  "codeBlocks t =
     (case codeBlockExec t of None \<Rightarrow> [] | Some (block, rest) \<Rightarrow> block # codeBlocks rest)"
  by pat_completeness auto
termination
  by (relation "measure length") (auto dest: codeBlockExec_length)

declare codeBlocks.simps [simp del]

section \<open>Parsed JSON and the sanitised configuration\<close>

text \<open>
  What \<open>JSON.parse\<close> returns. A number is kept as its source text: of a number the code
  below only asks whether it is a string or an object. The members of an object are kept
  in the order of the text; of two members of one name the later one is the property.
\<close>

datatype json =
  JNull | JBool bool | JNumber jsstring | JString jsstring
  | JArray "json list" | JObject "(jsstring \<times> json) list"

definition getProp :: "json \<Rightarrow> jsstring \<Rightarrow> json option" where
  "getProp obj k = (case obj of JObject ms \<Rightarrow> map_of (rev ms) k | _ \<Rightarrow> None)"

text \<open>\<open>typeof obj[k] === "string"\<close>, with the string.\<close>

definition stringProp :: "json \<Rightarrow> jsstring \<Rightarrow> jsstring option" where
  "stringProp obj k = (case getProp obj k of Some (JString v) \<Rightarrow> Some v | _ \<Rightarrow> None)"

text \<open>
  \<open>sanitizeConfig\<close> reads the state \<open>baseUrl\<close>, \<open>model\<close>, \<open>apiKey\<close> of the component; it is
  the parameter \<open>cur\<close>. Of the values of JSON, \<open>null\<close> is falsy and the booleans, numbers and
  strings are not of type \<open>object\<close>; arrays and objects pass, and an array has none of the
  three properties.
\<close>

definition sanitizeConfig :: "config \<Rightarrow> json \<Rightarrow> config option" where
  "sanitizeConfig cur obj =
     (case obj of
        JNull \<Rightarrow> None | JBool b \<Rightarrow> None | JNumber n \<Rightarrow> None | JString s \<Rightarrow> None
      | _ \<Rightarrow>
          Some \<lparr>baseUrl = (case stringProp obj (js ''baseUrl'') of
                             Some v \<Rightarrow> if trim v \<noteq> [] then trim v else baseUrl cur
                           | None \<Rightarrow> baseUrl cur),
                model = (case stringProp obj (js ''model'') of
                           Some v \<Rightarrow> if trim v \<noteq> [] then trim v else model cur
                         | None \<Rightarrow> model cur),
                apiKey = (case stringProp obj (js ''apiKey'') of
                            Some v \<Rightarrow> v
                          | None \<Rightarrow> apiKey cur)\<rparr>)"

section \<open>JSON text\<close>

definition isHighSurrogate :: "jschar \<Rightarrow> bool" where
  "isHighSurrogate c \<longleftrightarrow> 0xD800 \<le> c \<and> c \<le> 0xDBFF"

definition isLowSurrogate :: "jschar \<Rightarrow> bool" where
  "isLowSurrogate c \<longleftrightarrow> 0xDC00 \<le> c \<and> c \<le> 0xDFFF"

definition hexDigit :: "nat \<Rightarrow> jschar" where
  "hexDigit n = of_nat (if n < 10 then 48 + n else 87 + n)"

definition unicodeEscape :: "jschar \<Rightarrow> jsstring" where
  "unicodeEscape c =
     [0x5C, 0x75, hexDigit (unat c div 4096), hexDigit (unat c div 256 mod 16),
      hexDigit (unat c div 16 mod 16), hexDigit (unat c mod 16)]"

text \<open>
  \<open>QuoteJSONString\<close> of \<open>JSON.stringify\<close>: the short escapes, \<open>\uXXXX\<close> for the other
  control characters and for a surrogate that has no partner, everything else as it is.
\<close>

definition quoteChar :: "jschar \<Rightarrow> jsstring" where
  "quoteChar c =
     (if c = 0x08 then [0x5C, 0x62]
      else if c = 0x09 then [0x5C, 0x74]
      else if c = 0x0A then [0x5C, 0x6E]
      else if c = 0x0C then [0x5C, 0x66]
      else if c = 0x0D then [0x5C, 0x72]
      else if c = 0x22 then [0x5C, 0x22]
      else if c = 0x5C then [0x5C, 0x5C]
      else if c < 0x20 \<or> isHighSurrogate c \<or> isLowSurrogate c then unicodeEscape c
      else [c])"

fun quoteBody :: "jsstring \<Rightarrow> jsstring" where
  "quoteBody [] = []"
| "quoteBody [c] = quoteChar c"
| "quoteBody (c # d # cs) =
     (if isHighSurrogate c \<and> isLowSurrogate d then c # d # quoteBody cs
      else quoteChar c @ quoteBody (d # cs))"

definition quoteJSONString :: "jsstring \<Rightarrow> jsstring" where
  "quoteJSONString s = 0x22 # quoteBody s @ [0x22]"

text \<open>\<open>JSON.stringify({ baseUrl: cfg.baseUrl, model: cfg.model, apiKey: cfg.apiKey })\<close>.\<close>

definition stringifyConfig :: "config \<Rightarrow> jsstring" where
  \<open>stringifyConfig cfg =
     js ''{"baseUrl":'' @ quoteJSONString (baseUrl cfg) @
     js '',"model":'' @ quoteJSONString (model cfg) @
     js '',"apiKey":'' @ quoteJSONString (apiKey cfg) @ js ''}''\<close>

text \<open>
  \<open>JSON.parse\<close>. \<open>parseStringBody\<close> reads a string after its opening quote and returns
  it with the text after the closing quote. The three mutually recursive parsers carry a
  bound on the number of nested calls; \<open>jsonParse\<close> starts them with more than the length
  of the text, and each call consumes a character before it calls again. \<open>None\<close> is the
  \<open>SyntaxError\<close>.
\<close>

definition isJsonSpace :: "jschar \<Rightarrow> bool" where
  "isJsonSpace c \<longleftrightarrow> c = 0x20 \<or> c = 0x09 \<or> c = 0x0A \<or> c = 0x0D"

definition hexValue :: "jschar \<Rightarrow> nat option" where
  "hexValue c =
     (if 0x30 \<le> c \<and> c \<le> 0x39 then Some (unat c - 48)
      else if 0x61 \<le> c \<and> c \<le> 0x66 then Some (unat c - 87)
      else if 0x41 \<le> c \<and> c \<le> 0x46 then Some (unat c - 55)
      else None)"

definition hex4 :: "jsstring \<Rightarrow> jschar option" where
  "hex4 u =
     (case u of
        a # b # c # d # r \<Rightarrow>
          (case (hexValue a, hexValue b, hexValue c, hexValue d) of
             (Some x3, Some x2, Some x1, Some x0) \<Rightarrow>
               Some (of_nat (4096 * x3 + 256 * x2 + 16 * x1 + x0))
           | _ \<Rightarrow> None)
      | _ \<Rightarrow> None)"

definition simpleEscape :: "jschar \<Rightarrow> jschar option" where
  "simpleEscape e =
     (if e = 0x22 then Some 0x22
      else if e = 0x5C then Some 0x5C
      else if e = 0x2F then Some 0x2F
      else if e = 0x62 then Some 0x08
      else if e = 0x66 then Some 0x0C
      else if e = 0x6E then Some 0x0A
      else if e = 0x72 then Some 0x0D
      else if e = 0x74 then Some 0x09
      else None)"

fun parseStringBody :: "jsstring \<Rightarrow> (jsstring \<times> jsstring) option" where
  "parseStringBody [] = None"
| "parseStringBody (c # cs) =
     (if c = 0x22 then Some ([], cs)
      else if c = 0x5C then
        (case cs of
           [] \<Rightarrow> None
         | e # es \<Rightarrow>
             if e = 0x75 then
               (case hex4 es of
                  None \<Rightarrow> None
                | Some x \<Rightarrow> map_option (\<lambda>(s, r). (x # s, r)) (parseStringBody (drop 4 es)))
             else
               (case simpleEscape e of
                  None \<Rightarrow> None
                | Some x \<Rightarrow> map_option (\<lambda>(s, r). (x # s, r)) (parseStringBody es)))
      else if c < 0x20 then None
      else map_option (\<lambda>(s, r). (c # s, r)) (parseStringBody cs))"

text \<open>The text of a number: \<open>-? (0 | [1-9][0-9]*) (.[0-9]+)? ([eE][+-]?[0-9]+)?\<close>.\<close>

definition numberInt :: "jsstring \<Rightarrow> (jsstring \<times> jsstring) option" where
  "numberInt u =
     (case u of
        [] \<Rightarrow> None
      | c # cs \<Rightarrow>
          if c = 0x30 then Some ([c], cs)
          else if 0x31 \<le> c \<and> c \<le> 0x39 then
            Some (c # takeWhile isDigit cs, dropWhile isDigit cs)
          else None)"

definition numberFrac :: "jsstring \<Rightarrow> (jsstring \<times> jsstring) option" where
  "numberFrac u =
     (case u of
        [] \<Rightarrow> Some ([], [])
      | c # cs \<Rightarrow>
          if c = 0x2E then
            (if takeWhile isDigit cs = [] then None
             else Some (c # takeWhile isDigit cs, dropWhile isDigit cs))
          else Some ([], u))"

definition numberExp :: "jsstring \<Rightarrow> (jsstring \<times> jsstring) option" where
  "numberExp u =
     (case u of
        [] \<Rightarrow> Some ([], [])
      | c # cs \<Rightarrow>
          if c = 0x65 \<or> c = 0x45 then
            (let sign = (case cs of [] \<Rightarrow> [] | d # ds \<Rightarrow> if d = 0x2B \<or> d = 0x2D then [d] else []);
                 ds = drop (length sign) cs
             in if takeWhile isDigit ds = [] then None
                else Some (c # sign @ takeWhile isDigit ds, dropWhile isDigit ds))
          else Some ([], u))"

definition parseNumber :: "jsstring \<Rightarrow> (jsstring \<times> jsstring) option" where
  "parseNumber u =
     (let sign = (case u of [] \<Rightarrow> [] | c # cs \<Rightarrow> if c = 0x2D then [c] else [])
      in case numberInt (drop (length sign) u) of
           None \<Rightarrow> None
         | Some (i, r1) \<Rightarrow>
             (case numberFrac r1 of
                None \<Rightarrow> None
              | Some (f, r2) \<Rightarrow>
                  (case numberExp r2 of
                     None \<Rightarrow> None
                   | Some (e, r3) \<Rightarrow> Some (sign @ i @ f @ e, r3))))"

fun parseValue :: "nat \<Rightarrow> jsstring \<Rightarrow> (json \<times> jsstring) option"
  and parseMembers :: "nat \<Rightarrow> jsstring \<Rightarrow> ((jsstring \<times> json) list \<times> jsstring) option"
  and parseElements :: "nat \<Rightarrow> jsstring \<Rightarrow> (json list \<times> jsstring) option"
where
  "parseValue 0 u = None"
| "parseValue (Suc n) u =
     (case dropWhile isJsonSpace u of
        [] \<Rightarrow> None
      | c # cs \<Rightarrow>
          if c = 0x7B then
            (case dropWhile isJsonSpace cs of
               [] \<Rightarrow> None
             | d # ds \<Rightarrow>
                 if d = 0x7D then Some (JObject [], ds)
                 else map_option (\<lambda>(ms, r). (JObject ms, r)) (parseMembers n (d # ds)))
          else if c = 0x5B then
            (case dropWhile isJsonSpace cs of
               [] \<Rightarrow> None
             | d # ds \<Rightarrow>
                 if d = 0x5D then Some (JArray [], ds)
                 else map_option (\<lambda>(vs, r). (JArray vs, r)) (parseElements n (d # ds)))
          else if c = 0x22 then map_option (\<lambda>(s, r). (JString s, r)) (parseStringBody cs)
          else if startsWith (js ''true'') (c # cs) then Some (JBool True, drop 4 (c # cs))
          else if startsWith (js ''false'') (c # cs) then Some (JBool False, drop 5 (c # cs))
          else if startsWith (js ''null'') (c # cs) then Some (JNull, drop 4 (c # cs))
          else map_option (\<lambda>(l, r). (JNumber l, r)) (parseNumber (c # cs)))"
| "parseMembers 0 u = None"
| "parseMembers (Suc n) u =
     (case dropWhile isJsonSpace u of
        [] \<Rightarrow> None
      | c # cs \<Rightarrow>
          if c = 0x22 then
            (case parseStringBody cs of
               None \<Rightarrow> None
             | Some (k, r1) \<Rightarrow>
                 (case dropWhile isJsonSpace r1 of
                    [] \<Rightarrow> None
                  | colon # r2 \<Rightarrow>
                      if colon = 0x3A then
                        (case parseValue n r2 of
                           None \<Rightarrow> None
                         | Some (v, r3) \<Rightarrow>
                             (case dropWhile isJsonSpace r3 of
                                [] \<Rightarrow> None
                              | x # r4 \<Rightarrow>
                                  if x = 0x2C then
                                    map_option (\<lambda>(ms, r). ((k, v) # ms, r)) (parseMembers n r4)
                                  else if x = 0x7D then Some ([(k, v)], r4)
                                  else None))
                      else None))
          else None)"
| "parseElements 0 u = None"
| "parseElements (Suc n) u =
     (case parseValue n u of
        None \<Rightarrow> None
      | Some (v, r1) \<Rightarrow>
          (case dropWhile isJsonSpace r1 of
             [] \<Rightarrow> None
           | x # r2 \<Rightarrow>
               if x = 0x2C then map_option (\<lambda>(vs, r). (v # vs, r)) (parseElements n r2)
               else if x = 0x5D then Some ([v], r2)
               else None))"

definition jsonParse :: "jsstring \<Rightarrow> json option" where
  "jsonParse t =
     (case parseValue (Suc (length t)) t of
        None \<Rightarrow> None
      | Some (v, r) \<Rightarrow> if dropWhile isJsonSpace r = [] then Some v else None)"

section \<open>UTF-8 and Base64\<close>

text \<open>
  \<open>unescape(encodeURIComponent(str))\<close> is the string whose code units are the bytes of
  the UTF-8 encoding of \<open>str\<close>: \<open>encodeURIComponent\<close> writes every byte either as the
  character itself or as \<open>%XX\<close> (and \<open>%\<close> itself as \<open>%25\<close>), and \<open>unescape\<close> reads that
  back into one code unit per byte. \<open>encodeURIComponent\<close> throws a \<open>URIError\<close> on a
  surrogate without its partner, which is \<open>None\<close> here.
\<close>

definition utf8Bytes :: "nat \<Rightarrow> jsstring" where
  "utf8Bytes cp =
     (if cp < 0x80 then [of_nat cp]
      else if cp < 0x800 then [of_nat (0xC0 + cp div 64), of_nat (0x80 + cp mod 64)]
      else if cp < 0x10000 then
        [of_nat (0xE0 + cp div 4096), of_nat (0x80 + cp div 64 mod 64), of_nat (0x80 + cp mod 64)]
      else
        [of_nat (0xF0 + cp div 262144), of_nat (0x80 + cp div 4096 mod 64),
         of_nat (0x80 + cp div 64 mod 64), of_nat (0x80 + cp mod 64)])"

definition pairCodePoint :: "jschar \<Rightarrow> jschar \<Rightarrow> nat" where
  "pairCodePoint c d = 0x10000 + (unat c - 0xD800) * 0x400 + (unat d - 0xDC00)"

fun utf8Encode :: "jsstring \<Rightarrow> jsstring option" where
  "utf8Encode [] = Some []"
| "utf8Encode [c] =
     (if isHighSurrogate c \<or> isLowSurrogate c then None else Some (utf8Bytes (unat c)))"
| "utf8Encode (c # d # cs) =
     (if isHighSurrogate c then
        (if isLowSurrogate d then
           map_option ((@) (utf8Bytes (pairCodePoint c d))) (utf8Encode cs)
         else None)
      else if isLowSurrogate c then None
      else map_option ((@) (utf8Bytes (unat c))) (utf8Encode (d # cs)))"

text \<open>
  \<open>decodeURIComponent(escape(str))\<close>, the way back: \<open>escape\<close> writes a code unit up to
  \<open>0xFF\<close> as itself or as \<open>%XX\<close>, and \<open>decodeURIComponent\<close> reads the bytes as UTF-8,
  throwing a \<open>URIError\<close> on a byte sequence that is not the UTF-8 encoding of a code
  point (a stray or missing continuation byte, an overlong form, a surrogate, a value
  above \<open>0x10FFFF\<close>). A code unit above \<open>0xFF\<close> becomes \<open>%uXXXX\<close>, which is an error as
  well.
\<close>

definition isContinuation :: "jschar \<Rightarrow> bool" where
  "isContinuation b \<longleftrightarrow> 0x80 \<le> b \<and> b \<le> 0xBF"

definition codeUnits :: "nat \<Rightarrow> jsstring" where
  "codeUnits cp =
     (if cp < 0x10000 then [of_nat cp]
      else [of_nat (0xD800 + (cp - 0x10000) div 0x400), of_nat (0xDC00 + (cp - 0x10000) mod 0x400)])"

fun utf8Decode :: "jsstring \<Rightarrow> jsstring option" where
  "utf8Decode [] = Some []"
| "utf8Decode (b # bs) =
     (if b < 0x80 then map_option ((#) b) (utf8Decode bs)
      else if 0xFF < b then None
      else if b < 0xC0 then None
      else if b < 0xE0 then
        (case bs of
           b1 # r \<Rightarrow>
             (let cp = (unat b - 0xC0) * 64 + (unat b1 - 0x80)
              in if isContinuation b1 \<and> 0x80 \<le> cp
                 then map_option ((@) (codeUnits cp)) (utf8Decode r) else None)
         | _ \<Rightarrow> None)
      else if b < 0xF0 then
        (case bs of
           b1 # b2 # r \<Rightarrow>
             (let cp = (unat b - 0xE0) * 4096 + (unat b1 - 0x80) * 64 + (unat b2 - 0x80)
              in if isContinuation b1 \<and> isContinuation b2 \<and> 0x800 \<le> cp \<and>
                    \<not> (0xD800 \<le> cp \<and> cp \<le> 0xDFFF)
                 then map_option ((@) (codeUnits cp)) (utf8Decode r) else None)
         | _ \<Rightarrow> None)
      else if b < 0xF8 then
        (case bs of
           b1 # b2 # b3 # r \<Rightarrow>
             (let cp = (unat b - 0xF0) * 262144 + (unat b1 - 0x80) * 4096 +
                       (unat b2 - 0x80) * 64 + (unat b3 - 0x80)
              in if isContinuation b1 \<and> isContinuation b2 \<and> isContinuation b3 \<and>
                    0x10000 \<le> cp \<and> cp \<le> 0x10FFFF
                 then map_option ((@) (codeUnits cp)) (utf8Decode r) else None)
         | _ \<Rightarrow> None)
      else None)"

text \<open>
  \<open>btoa\<close>: an \<open>InvalidCharacterError\<close> on a code unit above \<open>0xFF\<close>; otherwise the
  bytes are cut into groups of six bits, the last group filled with zero bits, each group
  is written as a character of the alphabet, and \<open>=\<close> fills the last group of four.
\<close>

definition b64Char :: "nat \<Rightarrow> jschar" where
  "b64Char n =
     of_nat (if n < 26 then 65 + n else if n < 52 then 71 + n else if n < 62 then n - 4
             else if n = 62 then 43 else 47)"

fun sextets :: "nat list \<Rightarrow> nat list" where
  "sextets (a # b # c # r) =
     [a div 4, (a mod 4) * 16 + b div 16, (b mod 16) * 4 + c div 64, c mod 64] @ sextets r"
| "sextets [a, b] = [a div 4, (a mod 4) * 16 + b div 16, (b mod 16) * 4]"
| "sextets [a] = [a div 4, (a mod 4) * 16]"
| "sextets [] = []"

definition btoa :: "jsstring \<Rightarrow> jsstring option" where
  "btoa s =
     (if \<exists>c\<in>set s. 0xFF < c then None
      else Some (map b64Char (sextets (map unat s)) @
                 replicate ((3 - length s mod 3) mod 3) 0x3D))"

text \<open>
  \<open>atob\<close>, the forgiving decoding of the HTML standard: ASCII white space is removed;
  when the length is a multiple of four, one or two \<open>=\<close> at the end are removed; a length
  that leaves the remainder one, or a character outside the alphabet, is an error; the
  bits left over after the last whole byte are dropped.
\<close>

definition isAsciiSpace :: "jschar \<Rightarrow> bool" where
  "isAsciiSpace c \<longleftrightarrow> c = 0x09 \<or> c = 0x0A \<or> c = 0x0C \<or> c = 0x0D \<or> c = 0x20"

definition b64Value :: "jschar \<Rightarrow> nat option" where
  "b64Value c =
     (if 0x41 \<le> c \<and> c \<le> 0x5A then Some (unat c - 65)
      else if 0x61 \<le> c \<and> c \<le> 0x7A then Some (unat c - 71)
      else if 0x30 \<le> c \<and> c \<le> 0x39 then Some (unat c + 4)
      else if c = 0x2B then Some 62
      else if c = 0x2F then Some 63
      else None)"

fun octets :: "nat list \<Rightarrow> nat list" where
  "octets (a # b # c # d # r) =
     [a * 4 + b div 16, (b mod 16) * 16 + c div 4, (c mod 4) * 64 + d] @ octets r"
| "octets [a, b, c] = [a * 4 + b div 16, (b mod 16) * 16 + c div 4]"
| "octets [a, b] = [a * 4 + b div 16]"
| "octets [a] = []"
| "octets [] = []"

definition stripPadding :: "jsstring \<Rightarrow> jsstring" where
  "stripPadding d =
     (case rev d of
        x # y # r \<Rightarrow> if x = 0x3D then (if y = 0x3D then rev r else rev (y # r)) else d
      | [x] \<Rightarrow> if x = 0x3D then [] else d
      | [] \<Rightarrow> d)"

definition atob :: "jsstring \<Rightarrow> jsstring option" where
  "atob s =
     (let d = filter (\<lambda>c. \<not> isAsciiSpace c) s;
          e = (if length d mod 4 = 0 then stripPadding d else d)
      in if length e mod 4 = 1 then None
         else case those (map b64Value e) of
                None \<Rightarrow> None
              | Some vs \<Rightarrow> Some (map of_nat (octets vs)))"

section \<open>The link codec\<close>

definition replaceAll :: "jschar \<Rightarrow> jschar \<Rightarrow> jsstring \<Rightarrow> jsstring" where
  "replaceAll a b s = map (\<lambda>c. if c = a then b else c) s"

text \<open>\<open>.replace(/=+$/g, "")\<close>.\<close>

definition stripTrailingEquals :: "jsstring \<Rightarrow> jsstring" where
  "stripTrailingEquals s = rev (dropWhile (\<lambda>c. c = 0x3D) (rev s))"

definition toBase64Url :: "jsstring \<Rightarrow> jsstring" where
  "toBase64Url str =
     (case utf8Encode str of
        None \<Rightarrow> []
      | Some bytes \<Rightarrow>
          (case btoa bytes of
             None \<Rightarrow> []
           | Some b64 \<Rightarrow>
               stripTrailingEquals (replaceAll 0x2F 0x5F (replaceAll 0x2B 0x2D b64))))"

definition fromBase64Url :: "jsstring \<Rightarrow> jsstring option" where
  "fromBase64Url b64url =
     (let b64 = replaceAll 0x5F 0x2F (replaceAll 0x2D 0x2B b64url);
          pad = length b64 mod 4;
          padded = (if pad \<noteq> 0 then b64 @ replicate (4 - pad) 0x3D else b64)
      in case atob padded of None \<Rightarrow> None | Some str \<Rightarrow> utf8Decode str)"

text \<open>
  \<open>buildMagicLink\<close>; \<open>base\<close> is the origin and the path of the page. \<open>locationHash\<close> is
  \<open>window.location.hash\<close> for a page address: the fragment with its \<open>#\<close>, and the empty
  string when there is no fragment or an empty one.
\<close>

definition buildMagicLink :: "jsstring \<Rightarrow> config \<Rightarrow> jsstring" where
  "buildMagicLink base cfg = base @ js ''#cfg='' @ toBase64Url (stringifyConfig cfg)"

definition locationHash :: "jsstring \<Rightarrow> jsstring" where
  "locationHash url =
     (case dropWhile (\<lambda>c. c \<noteq> 0x23) url of [] \<Rightarrow> [] | [h] \<Rightarrow> [] | h # f \<Rightarrow> h # f)"

text \<open>\<open>h.match(/[#&]cfg=([A-Za-z0-9_\-]+)/)\<close>: the group of the leftmost match.\<close>

definition isTokenChar :: "jschar \<Rightarrow> bool" where
  "isTokenChar c \<longleftrightarrow> isAsciiLetter c \<or> isDigit c \<or> c = 0x5F \<or> c = 0x2D"

fun cfgMatch :: "jsstring \<Rightarrow> jsstring option" where
  "cfgMatch [] = None"
| "cfgMatch (c # cs) =
     (if (c = 0x23 \<or> c = 0x26) \<and> startsWith (js ''cfg='') cs \<and>
         takeWhile isTokenChar (drop 4 cs) \<noteq> []
      then Some (takeWhile isTokenChar (drop 4 cs))
      else cfgMatch cs)"

definition parseMagicLinkFromHash :: "config \<Rightarrow> jsstring \<Rightarrow> config option" where
  "parseMagicLinkFromHash cur h =
     (if h = [] then None
      else case cfgMatch h of
        None \<Rightarrow> None
      | Some token \<Rightarrow>
          (case fromBase64Url token of
             None \<Rightarrow> None
           | Some json \<Rightarrow>
               if json = [] then None
               else (case jsonParse json of
                       None \<Rightarrow> None
                     | Some obj \<Rightarrow> sanitizeConfig cur obj)))"

text \<open>
  Three abbreviations for the proofs: the strings that \<open>utf8Encode\<close> accepts, and the two
  character substitutions of \<open>toBase64Url\<close> and \<open>fromBase64Url\<close> on a single code unit.
\<close>

definition encodable :: "jsstring \<Rightarrow> bool" where
  "encodable s \<longleftrightarrow> (\<exists>x. utf8Encode s = Some x)"

definition urlSafe :: "jschar \<Rightarrow> jschar" where
  "urlSafe c = (if (if c = 0x2B then 0x2D else c) = 0x2F then 0x5F
     else (if c = 0x2B then 0x2D else c))"

definition urlUnsafe :: "jschar \<Rightarrow> jschar" where
  "urlUnsafe c = (if (if c = 0x2D then 0x2B else c) = 0x5F then 0x2F
     else (if c = 0x2D then 0x2B else c))"


section \<open>Basic facts\<close>

lemma dropWhile_all_then: "\<forall>c\<in>set a. P c \<Longrightarrow> \<not> P x \<Longrightarrow> dropWhile P (a @ x # r) = x # r"
  by (induction a) auto

lemma startsWith_self: "startsWith p (p @ r)"
  by (induction p) auto

lemma persistEffects_same [simp]: "persistEffects s s = s"
  by (simp add: persistEffects_def)

lemma isStateCommand_nonempty: "isStateCommand t \<Longrightarrow> t \<noteq> []"
  by (auto simp: isStateCommand_def js_def)

lemma persistEffects_frame:
  "messages new = messages old \<Longrightarrow> lastYaml new = lastYaml old \<Longrightarrow> persistEffects old new = new"
  by (simp add: persistEffects_def)

lemma trim_empty_iff: "trim s = [] \<longleftrightarrow> (\<forall>c\<in>set s. isSpace c)"
proof
  assume "trim s = []"
  then have "dropWhile isSpace (rev (dropWhile isSpace s)) = []"
    by (simp add: trim_def)
  then have "\<forall>c\<in>set (rev (dropWhile isSpace s)). isSpace c"
    by (simp add: dropWhile_eq_Nil_conv)
  then have "dropWhile isSpace s = []"
    by (metis dropWhile_eq_Nil_conv hd_dropWhile list.set_sel(1) set_rev)
  then show "\<forall>c\<in>set s. isSpace c"
    by (simp add: dropWhile_eq_Nil_conv)
next
  assume "\<forall>c\<in>set s. isSpace c"
  then have d: "dropWhile isSpace s = []"
    by (induction s) auto
  show "trim s = []"
    unfolding trim_def d by simp
qed

lemma stateAt_nonspace: "stateAt u \<Longrightarrow> \<exists>c\<in>set u. \<not> isSpace c"
proof -
  assume a: "stateAt u"
  define v where "v = dropWhile isSpace u"
  from a have "startsWith (js ''STATE'') v"
    by (simp add: stateAt_def v_def Let_def)
  then obtain w where "v = 0x53 # w"
    by (cases v) (auto simp: js_def)
  then have "0x53 \<in> set u"
    by (metis v_def list.set_intros(1) set_dropWhileD)
  moreover have "\<not> isSpace (0x53 :: jschar)"
    by (simp add: isSpace_def isLineTerminator_def)
  ultimately show ?thesis by blast
qed

lemma stateTestFrom_nonspace: "stateTestFrom b u \<Longrightarrow> \<exists>c\<in>set u. \<not> isSpace c"
proof (induction u arbitrary: b)
  case Nil
  then show ?case by simp
next
  case (Cons c cs)
  from Cons.prems have "stateAt (c # cs) \<or> stateTestFrom (isLineTerminator c) cs"
    by auto
  then show ?case
  proof
    assume "stateAt (c # cs)"
    then show ?thesis by (rule stateAt_nonspace)
  next
    assume "stateTestFrom (isLineTerminator c) cs"
    from Cons.IH [OF this] show ?thesis by auto
  qed
qed

lemma hasStateLine_trim: "hasStateLine block \<Longrightarrow> trim block \<noteq> []"
  using stateTestFrom_nonspace [of True block]
  by (auto simp: hasStateLine_def trim_empty_iff)

lemma extractLoop_nonempty:
  "extractLoop t acc = Some y \<Longrightarrow> acc \<noteq> Some [] \<Longrightarrow> y \<noteq> []"
proof (induction t acc rule: extractLoop.induct)
  case (1 t lastYaml)
  show ?case
  proof (cases "codeBlockExec t")
    case None
    with "1.prems" show ?thesis by (simp add: extractLoop.simps [of t])
  next
    case (Some r)
    obtain block rest where r: "r = (block, rest)" by (cases r)
    let ?acc = "if hasStateLine block then Some (trim block) else lastYaml"
    from Some r "1.prems" have e: "extractLoop rest ?acc = Some y"
      by (simp add: extractLoop.simps [of t])
    have "?acc \<noteq> Some []"
      using "1.prems"(2) hasStateLine_trim by auto
    from "1.IH" [OF Some r [symmetric] e this] show ?thesis .
  qed
qed

lemma extractStateYaml_nonempty: "extractStateYaml a = Some y \<Longrightarrow> y \<noteq> []"
  unfolding extractStateYaml_def by (erule extractLoop_nonempty) simp


lemma trim_decomp:
  "\<exists>a b. s = a @ trim s @ b \<and> (\<forall>c\<in>set a. isSpace c) \<and> (\<forall>c\<in>set b. isSpace c)"
proof -
  define d where "d = dropWhile isSpace s"
  have 1: "s = takeWhile isSpace s @ d"
    by (simp add: d_def)
  have "rev d = takeWhile isSpace (rev d) @ dropWhile isSpace (rev d)"
    by simp
  then have "d = rev (dropWhile isSpace (rev d)) @ rev (takeWhile isSpace (rev d))"
    by (metis rev_append rev_rev_ident)
  then have 2: "d = trim s @ rev (takeWhile isSpace (rev d))"
    unfolding trim_def d_def .
  have 3: "\<forall>c\<in>set (takeWhile isSpace s). isSpace c"
    by (auto dest: set_takeWhileD)
  have 4: "\<forall>c\<in>set (rev (takeWhile isSpace (rev d))). isSpace c"
    by (auto dest: set_takeWhileD)
  from 1 2 have "s = takeWhile isSpace s @ trim s @ rev (takeWhile isSpace (rev d))"
    by simp
  with 3 4 show ?thesis by blast
qed

lemma isSpace_not_word: "isSpace c \<Longrightarrow> \<not> isWordChar c"
  by (auto simp: isSpace_def isLineTerminator_def isWordChar_def isAsciiLetter_def isDigit_def
      word_le_nat_alt)

lemma mentionsFrom_skip:
  "mentionsFrom False u \<Longrightarrow> \<forall>c\<in>set a. isSpace c \<Longrightarrow> mentionsFrom False (a @ u)"
  by (induction a) (auto simp: isSpace_not_word)

lemma mentionsFrom_command:
  assumes "isStateCommand t" and "\<forall>c\<in>set b. isSpace c"
  shows "mentionsFrom False (t @ b)"
proof -
  from assms(1) obtain c1 c2 c3 c4 c5 where t: "t = [c1, c2, c3, c4, c5]"
    by (auto simp: isStateCommand_def js_def)
  from assms(1) have m: "map canonicalize t = js ''STATE''"
    by (simp add: isStateCommand_def)
  have w: "wordEndsHere b"
    using assms(2) by (cases b) (auto simp: wordEndsHere_def isSpace_not_word)
  have "startsWith (js ''STATE'') (map canonicalize (take 5 (t @ b)))"
    using m by (simp add: t js_def)
  with w show ?thesis by (simp add: t)
qed

lemma command_mentions: "isStateCommand (trim t) \<Longrightarrow> mentionsState t"
proof -
  assume c: "isStateCommand (trim t)"
  obtain a b where d: "t = a @ trim t @ b" and a: "\<forall>c\<in>set a. isSpace c"
    and b: "\<forall>c\<in>set b. isSpace c"
    using trim_decomp by blast
  have "mentionsFrom False (a @ trim t @ b)"
    using mentionsFrom_command [OF c b] a by (rule mentionsFrom_skip)
  with d show ?thesis by (simp add: mentionsState_def)
qed

lemmas evals = js_def trim_def isSpace_def isLineTerminator_def isStateCommand_def canonicalize_def
  perform_def sendUserSubmit_def startSessionSubmit_def canAct_def ensureSettings_def
  initialApp_def localApp_def persistEffects_def errorText_def resetSession_def settle_def
  sendUserResume_def startSessionResume_def applyYaml_def Let_def

lemma sendUserSubmit_called:
  assumes "sendUserSubmit t now s = (s1, Some req)"
  shows "trim t \<noteq> []" and "\<not> busy s" and "300 \<le> now - lastAction s"
    and "\<not> (isStateCommand (trim t) \<and> lastYaml s \<noteq> [] \<and> trim (lastYaml s) \<noteq> [])"
    and "ensureSettings (settings s) = None"
    and "s1 = s\<lparr>lastAction := now, error := [],
                 messages := messages s @ [\<lparr>role = User, content = t\<rparr>],
                 busy := True, input := []\<rparr>"
    and "req = \<lparr>target = settings s, payload = messages s @ [\<lparr>role = User, content = t\<rparr>]\<rparr>"
  using assms
  by (auto simp: sendUserSubmit_def canAct_def Let_def
      split: if_splits option.splits)

lemma localApp_next:
  "perform [] (SendUser (js ''NEXT'')) 1000 localApp =
     (localApp\<lparr>lastAction := 1000, messages := [\<lparr>role = User, content = js ''NEXT''\<rparr>],
        busy := True, storedTranscript := Some [\<lparr>role = User, content = js ''NEXT''\<rparr>]\<rparr>,
      Some \<lparr>target = settings localApp, payload = [\<lparr>role = User, content = js ''NEXT''\<rparr>]\<rparr>)"
  by (simp add: evals localApp_def)

lemma extract_fenced_example:
  "extractStateYaml (js ''```yaml\<newline>STATE: x\<newline>```'') = Some (js ''STATE: x'')"
  by code_simp

lemma extract_plain_example: "extractStateYaml (js ''ok'') = None"
  by code_simp

section \<open>Blank submissions\<close>

text \<open>
  Claim C10. A submission whose trimmed text is empty changes nothing: no message, no
  call, the same extracted state, visibility, error and stored slots, and the same
  debounce timestamp, so that whatever is submitted next is treated as if the blank
  submission had not happened.
\<close>

theorem blank_submission_noop:
  "trim t = [] \<Longrightarrow> perform prompt (SendUser t) now s = (s, None)"
  by (simp add: perform_def sendUserSubmit_def)

theorem blank_submission_noop_witness:
  "trim (js ''   '') = [] \<and> perform [] (SendUser (js ''   '')) 1000 initialApp = (initialApp, None)"
proof -
  have h: "trim (js ''   '') = []"
    by (simp add: js_def trim_def isSpace_def isLineTerminator_def)
  show ?thesis using h blank_submission_noop [OF h, of "[]" 1000 initialApp] by simp
qed

section \<open>The local toggle\<close>

text \<open>
  Claim C4, amended. A submission of the toggle command (\<open>STATE\<close> in any case, after
  trimming) while the extracted state is non-blank never reaches the collaborator and
  leaves the messages, the extracted state and the settings as they are. When no call is in
  flight and at least 300ms have passed since the last accepted action, it flips the
  visibility once (and takes the timestamp and empties the input field); otherwise the
  guards of \<open>sendUser\<close> drop it and nothing changes, the visibility included.
\<close>

theorem toggle_is_local:
  "isStateCommand (trim t) \<Longrightarrow> trim (lastYaml s) \<noteq> [] \<Longrightarrow>
   perform prompt (SendUser t) now s =
     (if \<not> busy s \<and> 300 \<le> now - lastAction s
      then s\<lparr>lastAction := now, drawerOpen := \<not> drawerOpen s, input := []\<rparr>
      else s,
      None)"
proof -
  assume c: "isStateCommand (trim t)" and y: "trim (lastYaml s) \<noteq> []"
  from c have n: "trim t \<noteq> []" by (rule isStateCommand_nonempty)
  from y have y': "lastYaml s \<noteq> []" by (auto simp: trim_def)
  show ?thesis
    using c y y' n
    by (simp add: perform_def sendUserSubmit_def canAct_def persistEffects_def)
qed

theorem toggle_is_local_witness:
  "isStateCommand (trim (js '' state'')) \<and>
   trim (lastYaml (initialApp\<lparr>lastYaml := js ''STATE: x''\<rparr>)) \<noteq> [] \<and>
   perform [] (SendUser (js '' state'')) 1000 (initialApp\<lparr>lastYaml := js ''STATE: x''\<rparr>) =
     (initialApp\<lparr>lastYaml := js ''STATE: x'', lastAction := 1000, drawerOpen := True\<rparr>, None)"
proof -
  have 1: "isStateCommand (trim (js '' state''))"
    by (simp add: evals)
  have 2: "trim (lastYaml (initialApp\<lparr>lastYaml := js ''STATE: x''\<rparr>)) \<noteq> []"
    by (simp add: evals)
  show ?thesis
    using 1 2 toggle_is_local [OF 1 2, of "[]" 1000] by (simp add: initialApp_def)
qed

text \<open>
  Without the guards the statement fails: the second of two clicks on the toggle, 100ms
  after the first, is dropped by the debounce guard and flips nothing.
\<close>

theorem toggle_debounced_counterexample:
  "isStateCommand (trim (js ''STATE'')) \<and>
   trim (lastYaml (initialApp\<lparr>lastYaml := js ''STATE: x'', lastAction := 1000\<rparr>)) \<noteq> [] \<and>
   drawerOpen (fst (perform [] (SendUser (js ''STATE'')) 1100
      (initialApp\<lparr>lastYaml := js ''STATE: x'', lastAction := 1000\<rparr>))) =
   drawerOpen (initialApp\<lparr>lastYaml := js ''STATE: x'', lastAction := 1000\<rparr>)"
  by (simp add: evals)

section \<open>A failed call\<close>

text \<open>
  Claim C5, amended. When a submission has led to a call and the call fails, the messages
  are those before the submission plus the one user message, visibility and extracted
  state are as before the submission, and the transcript slot holds the messages. The
  error shown is the message of the failure, or its name when it has no message; it is
  not empty when the failure has one of the two. No call is in flight any more. The same
  text submitted anew is dropped by the debounce guard, and changes nothing, as long as
  fewer than 300ms have passed since the failed submission was accepted; from then on it
  leads to a call again, whose payload holds the first user message and the new one.
\<close>

theorem failed_call_keeps_user_message:
  assumes "perform prompt (SendUser t) now s = (s1, Some req)"
    and "s2 = settle (AfterSend t) (Failed e) s1"
  shows "messages s2 = messages s @ [\<lparr>role = User, content = t\<rparr>] \<and>
         drawerOpen s2 = drawerOpen s \<and> lastYaml s2 = lastYaml s \<and>
         error s2 = (if failMessage e \<noteq> [] then failMessage e else failName e) \<and>
         (failMessage e \<noteq> [] \<or> failName e \<noteq> [] \<longrightarrow> error s2 \<noteq> []) \<and>
         \<not> busy s2 \<and> storedTranscript s2 = Some (messages s2) \<and>
         (\<forall>now'. now' - now < 300 \<longrightarrow> perform prompt (SendUser t) now' s2 = (s2, None)) \<and>
         (\<forall>now'. 300 \<le> now' - now \<longrightarrow>
            snd (perform prompt (SendUser t) now' s2) =
              Some \<lparr>target = settings s,
                    payload = messages s @ [\<lparr>role = User, content = t\<rparr>,
                                            \<lparr>role = User, content = t\<rparr>]\<rparr>)"
proof -
  obtain s1' where sub: "sendUserSubmit t now s = (s1', Some req)" and s1: "s1 = persistEffects s s1'"
    using assms(1) by (auto simp: perform_def split: prod.splits)
  note f = sendUserSubmit_called [OF sub]
  have s2: "s2 = s1\<lparr>error := errorText e, busy := False\<rparr>"
    using assms(2) by (simp add: settle_def sendUserResume_def persistEffects_def)
  have e2: "ensureSettings (settings s2) = None"
    using f(5) by (simp add: s2 s1 f(6) persistEffects_def)
  have early: "\<forall>now'. now' - now < 300 \<longrightarrow> perform prompt (SendUser t) now' s2 = (s2, None)"
    by (simp add: perform_def sendUserSubmit_def canAct_def s2 s1 f(6) persistEffects_def)
  have late: "\<forall>now'. 300 \<le> now' - now \<longrightarrow>
            snd (perform prompt (SendUser t) now' s2) =
              Some \<lparr>target = settings s,
                    payload = messages s @ [\<lparr>role = User, content = t\<rparr>,
                                            \<lparr>role = User, content = t\<rparr>]\<rparr>"
    using f(1) f(4) e2
    by (auto simp: perform_def sendUserSubmit_def canAct_def s2 s1 f(6) persistEffects_def
        Let_def)
  have shown: "error s2 = (if failMessage e \<noteq> [] then failMessage e else failName e)"
    by (simp add: s2 errorText_def)
  from early late shown show ?thesis
    by (simp add: s2 s1 f(6) persistEffects_def)
qed

theorem failed_call_keeps_user_message_witness:
  "perform [] (SendUser (js ''NEXT'')) 1000 localApp =
     (localApp\<lparr>lastAction := 1000, messages := [\<lparr>role = User, content = js ''NEXT''\<rparr>],
        busy := True, storedTranscript := Some [\<lparr>role = User, content = js ''NEXT''\<rparr>]\<rparr>,
      Some \<lparr>target = settings localApp, payload = [\<lparr>role = User, content = js ''NEXT''\<rparr>]\<rparr>) \<and>
   messages (settle (AfterSend (js ''NEXT'')) (Failed (Failure (js ''TypeError'') (js ''Failed to fetch'')))
     (localApp\<lparr>lastAction := 1000, messages := [\<lparr>role = User, content = js ''NEXT''\<rparr>],
        busy := True, storedTranscript := Some [\<lparr>role = User, content = js ''NEXT''\<rparr>]\<rparr>)) =
     [\<lparr>role = User, content = js ''NEXT''\<rparr>] \<and>
   error (settle (AfterSend (js ''NEXT'')) (Failed (Failure (js ''TypeError'') (js ''Failed to fetch'')))
     (localApp\<lparr>lastAction := 1000, messages := [\<lparr>role = User, content = js ''NEXT''\<rparr>],
        busy := True, storedTranscript := Some [\<lparr>role = User, content = js ''NEXT''\<rparr>]\<rparr>)) =
     js ''Failed to fetch'' \<and>
   snd (perform [] (SendUser (js ''NEXT'')) 1300
     (settle (AfterSend (js ''NEXT'')) (Failed (Failure (js ''TypeError'') (js ''Failed to fetch'')))
     (localApp\<lparr>lastAction := 1000, messages := [\<lparr>role = User, content = js ''NEXT''\<rparr>],
        busy := True, storedTranscript := Some [\<lparr>role = User, content = js ''NEXT''\<rparr>]\<rparr>))) =
     Some \<lparr>target = settings localApp,
           payload = [\<lparr>role = User, content = js ''NEXT''\<rparr>, \<lparr>role = User, content = js ''NEXT''\<rparr>]\<rparr>"
proof -
  have n: "js ''Failed to fetch'' \<noteq> []" "messages localApp = []"
    by (simp_all add: js_def localApp_def initialApp_def)
  show ?thesis
    using localApp_next n
      failed_call_keeps_user_message [OF localApp_next refl,
        of "Failure (js ''TypeError'') (js ''Failed to fetch'')"]
    by simp
qed

text \<open>
  "May immediately resubmit" fails when the call fails fast: a resubmission 100ms after the
  failed submission was accepted is dropped by the debounce guard, although no call is in
  flight.
\<close>

theorem fast_failure_resubmit_counterexample:
  "snd (perform [] (SendUser (js ''NEXT'')) 1000 localApp) \<noteq> None \<and>
   \<not> busy (settle (AfterSend (js ''NEXT'')) (Failed (Failure (js ''TypeError'') (js ''Failed to fetch'')))
     (fst (perform [] (SendUser (js ''NEXT'')) 1000 localApp))) \<and>
   perform [] (SendUser (js ''NEXT'')) 1100
     (settle (AfterSend (js ''NEXT'')) (Failed (Failure (js ''TypeError'') (js ''Failed to fetch'')))
       (fst (perform [] (SendUser (js ''NEXT'')) 1000 localApp))) =
     (settle (AfterSend (js ''NEXT'')) (Failed (Failure (js ''TypeError'') (js ''Failed to fetch'')))
       (fst (perform [] (SendUser (js ''NEXT'')) 1000 localApp)), None)"
  unfolding localApp_next
  by (simp add: settle_def sendUserResume_def persistEffects_def perform_def sendUserSubmit_def
      canAct_def localApp_def initialApp_def)

section \<open>The debounce guard\<close>

text \<open>
  Claim C7, amended. The guard \<open>canAct\<close> stands in \<open>startSession\<close> and \<open>sendUser\<close> only.
  A start or a submission invoked less than 300ms after the last accepted one of either
  kind is dropped, and a dropped action changes nothing, the reference timestamp included.
  A start or a non-blank submission invoked 300ms or more after the last accepted action,
  with no call in flight, is accepted: it becomes the new reference, and every start or
  submission within the next 300ms is dropped.
\<close>

theorem debounce_guard:
  "a \<noteq> ResetSession \<Longrightarrow>
     (now - lastAction s < 300 \<longrightarrow> perform prompt a now s = (s, None)) \<and>
     (300 \<le> now - lastAction s \<and> \<not> busy s \<and> (\<forall>t. a = SendUser t \<longrightarrow> trim t \<noteq> []) \<longrightarrow>
        lastAction (fst (perform prompt a now s)) = now \<and>
        (\<forall>b now2. b \<noteq> ResetSession \<and> now2 - now < 300 \<longrightarrow>
           perform prompt b now2 (fst (perform prompt a now s)) =
             (fst (perform prompt a now s), None)))"
proof -
  assume a: "a \<noteq> ResetSession"
  have rej: "perform prompt c n u = (u, None)" if "c \<noteq> ResetSession" "n - lastAction u < 300"
    for c n u
    using that
    by (cases c) (simp_all add: perform_def sendUserSubmit_def startSessionSubmit_def canAct_def)
  have acc: "lastAction (fst (perform prompt a now s)) = now"
    if "300 \<le> now - lastAction s" "\<not> busy s" "\<forall>t. a = SendUser t \<longrightarrow> trim t \<noteq> []"
    using that a
    by (cases a)
      (auto simp: perform_def sendUserSubmit_def startSessionSubmit_def canAct_def
        persistEffects_def Let_def split: option.splits)
  show ?thesis
    using a rej acc by simp
qed

theorem debounce_guard_witness:
  "SendUser (js ''NEXT'') \<noteq> ResetSession \<and> (1100::int) - lastAction (localApp\<lparr>lastAction := 1000\<rparr>) < 300 \<and>
   perform [] (SendUser (js ''NEXT'')) 1100 (localApp\<lparr>lastAction := 1000\<rparr>) =
     (localApp\<lparr>lastAction := 1000\<rparr>, None) \<and>
   (300::int) \<le> 1300 - lastAction (localApp\<lparr>lastAction := 1000\<rparr>) \<and>
   \<not> busy (localApp\<lparr>lastAction := 1000\<rparr>) \<and> trim (js ''NEXT'') \<noteq> [] \<and>
   lastAction (fst (perform [] (SendUser (js ''NEXT'')) 1300 (localApp\<lparr>lastAction := 1000\<rparr>))) = 1300 \<and>
   StartSession \<noteq> ResetSession \<and> (1400::int) - 1300 < 300 \<and>
   perform [] StartSession 1400
       (fst (perform [] (SendUser (js ''NEXT'')) 1300 (localApp\<lparr>lastAction := 1000\<rparr>))) =
     (fst (perform [] (SendUser (js ''NEXT'')) 1300 (localApp\<lparr>lastAction := 1000\<rparr>)), None)"
proof -
  have 1: "SendUser (js ''NEXT'') \<noteq> ResetSession" by simp
  have 2: "trim (js ''NEXT'') \<noteq> []" by (simp add: evals)
  have 3: "\<not> busy (localApp\<lparr>lastAction := 1000\<rparr>)"
    "lastAction (localApp\<lparr>lastAction := 1000\<rparr>) = 1000"
    by (simp_all add: localApp_def initialApp_def)
  show ?thesis
    using 2 3
      debounce_guard [OF 1, of 1100 "localApp\<lparr>lastAction := 1000\<rparr>" "[]"]
      debounce_guard [OF 1, of 1300 "localApp\<lparr>lastAction := 1000\<rparr>" "[]"]
    by simp
qed

text \<open>
  "Regardless of the action's type" fails: \<open>resetSession\<close> never asks the guard. A reset
  100ms after an accepted action is performed and clears the messages.
\<close>

theorem reset_not_debounced_counterexample:
  "(1100::int) - lastAction (localApp\<lparr>messages := [\<lparr>role = User, content = js ''hi''\<rparr>],
       lastAction := 1000\<rparr>) < 300 \<and>
   perform [] ResetSession 1100
     (localApp\<lparr>messages := [\<lparr>role = User, content = js ''hi''\<rparr>], lastAction := 1000\<rparr>) \<noteq>
   (localApp\<lparr>messages := [\<lparr>role = User, content = js ''hi''\<rparr>], lastAction := 1000\<rparr>, None)"
  by (simp add: evals localApp_def)

section \<open>The update after a reply\<close>

text \<open>
  What the continuation of \<open>sendUser\<close> does with a reply. When a block is extracted, it
  becomes the extracted state and the visibility is set; when none is extracted and the
  text just sent contains the word \<open>STATE\<close> in any case, between word boundaries, anywhere
  (the test is \<open>/\bSTATE\b/i\<close> on the text), the extracted state is cleared and the
  visibility is unset; otherwise both stay. The reply is appended in each case. A text
  that is the toggle command after trimming is one of the texts that contain the word.
\<close>

lemma reply_update:
  "(case extractStateYaml a of
      Some y \<Rightarrow>
        lastYaml (settle (AfterSend t) (Reply a) s) = y \<and>
        drawerOpen (settle (AfterSend t) (Reply a) s)
    | None \<Rightarrow>
        if mentionsState t then
          lastYaml (settle (AfterSend t) (Reply a) s) = [] \<and>
          \<not> drawerOpen (settle (AfterSend t) (Reply a) s)
        else
          lastYaml (settle (AfterSend t) (Reply a) s) = lastYaml s \<and>
          drawerOpen (settle (AfterSend t) (Reply a) s) = drawerOpen s) \<and>
   messages (settle (AfterSend t) (Reply a) s) =
     messages s @ [\<lparr>role = Assistant, content = a\<rparr>] \<and>
   (isStateCommand (trim t) \<longrightarrow> mentionsState t)"
proof -
  have "extractStateYaml a = Some y \<Longrightarrow> y \<noteq> []" for y
    by (rule extractStateYaml_nonempty)
  then show ?thesis
    by (auto simp: settle_def sendUserResume_def applyYaml_def persistEffects_def Let_def
        command_mentions split: option.splits)
qed

text \<open>
  Claim C2. The clearing branch is written for the toggle command: its comment reads
  "If user asked to toggle STATE but no YAML appeared, close the drawer", the local toggle
  some lines above it tests the trimmed text with \<open>/^STATE$/i\<close>, and the header of the
  file speaks of "sending the literal word STATE". The test of the branch itself is
  \<open>/\bSTATE\b/i\<close>, which holds for every text that contains the word. So the code breaks
  the rule of the claim: with an extracted state on display, the question
  "what is my state?" is not the toggle command; it is accepted and sent, the reply
  carries no block, and the extracted state is cleared and hidden, where the rule leaves
  both as they were.
\<close>

theorem question_clears_state:
  "\<not> isStateCommand (trim (js ''what is my state?'')) \<and>
   extractStateYaml (js ''ok'') = None \<and>
   perform [] (SendUser (js ''what is my state?'')) 1000
       (localApp\<lparr>lastYaml := js ''STATE: x'', drawerOpen := True\<rparr>) =
     (localApp\<lparr>lastYaml := js ''STATE: x'', drawerOpen := True, lastAction := 1000,
        messages := [\<lparr>role = User, content = js ''what is my state?''\<rparr>], busy := True,
        storedTranscript := Some [\<lparr>role = User, content = js ''what is my state?''\<rparr>]\<rparr>,
      Some \<lparr>target = settings localApp,
            payload = [\<lparr>role = User, content = js ''what is my state?''\<rparr>]\<rparr>) \<and>
   lastYaml (settle (AfterSend (js ''what is my state?'')) (Reply (js ''ok''))
     (fst (perform [] (SendUser (js ''what is my state?'')) 1000
       (localApp\<lparr>lastYaml := js ''STATE: x'', drawerOpen := True\<rparr>)))) = [] \<and>
   \<not> drawerOpen (settle (AfterSend (js ''what is my state?'')) (Reply (js ''ok''))
     (fst (perform [] (SendUser (js ''what is my state?'')) 1000
       (localApp\<lparr>lastYaml := js ''STATE: x'', drawerOpen := True\<rparr>))))"
proof -
  have m: "mentionsState (js ''what is my state?'')"
    by (simp add: mentionsState_def js_def canonicalize_def wordEndsHere_def isWordChar_def
        isAsciiLetter_def isDigit_def)
  have c: "\<not> isStateCommand (trim (js ''what is my state?''))"
    by (simp add: evals)
  have n: "js ''STATE: x'' \<noteq> []"
    by (simp add: js_def)
  have p: "perform [] (SendUser (js ''what is my state?'')) 1000
       (localApp\<lparr>lastYaml := js ''STATE: x'', drawerOpen := True\<rparr>) =
     (localApp\<lparr>lastYaml := js ''STATE: x'', drawerOpen := True, lastAction := 1000,
        messages := [\<lparr>role = User, content = js ''what is my state?''\<rparr>], busy := True,
        storedTranscript := Some [\<lparr>role = User, content = js ''what is my state?''\<rparr>]\<rparr>,
      Some \<lparr>target = settings localApp,
            payload = [\<lparr>role = User, content = js ''what is my state?''\<rparr>]\<rparr>)"
    by (simp add: evals)
  have r: "settle (AfterSend (js ''what is my state?'')) (Reply (js ''ok''))
      (localApp\<lparr>lastYaml := js ''STATE: x'', drawerOpen := True, lastAction := 1000,
        messages := [\<lparr>role = User, content = js ''what is my state?''\<rparr>], busy := True,
        storedTranscript := Some [\<lparr>role = User, content = js ''what is my state?''\<rparr>]\<rparr>) =
    localApp\<lparr>lastYaml := [], drawerOpen := False, lastAction := 1000, busy := False,
      messages := [\<lparr>role = User, content = js ''what is my state?''\<rparr>,
                   \<lparr>role = Assistant, content = js ''ok''\<rparr>],
      storedTranscript := Some [\<lparr>role = User, content = js ''what is my state?''\<rparr>,
                   \<lparr>role = Assistant, content = js ''ok''\<rparr>],
      storedYaml := Some []\<rparr>"
    by (simp add: settle_def sendUserResume_def applyYaml_def persistEffects_def
        extract_plain_example m n n [symmetric] localApp_def initialApp_def)
  show ?thesis
    unfolding p fst_conv r using c by (simp add: extract_plain_example)
qed

section \<open>A reset while a call is outstanding\<close>

text \<open>
  Claim C9, amended. Neither \<open>resetSession\<close> nor the rest of \<open>sendUser\<close> looks whether the
  session has changed. When the session is reset while the call of a submission is
  outstanding, the reply that arrives later is applied to the fresh session: it becomes
  the only message of the sequence and of the stored transcript, and the extracted state
  and the visibility are set from it as after any reply (to the block and shown when it
  has one, empty and hidden when not).
\<close>

theorem stale_reply_applied:
  assumes "perform prompt (SendUser t) now s = (s1, Some req)"
    and "s2 = fst (perform prompt ResetSession now' s1)"
    and "s3 = settle (AfterSend t) (Reply a) s2"
  shows "messages s2 = [] \<and> messages s3 = [\<lparr>role = Assistant, content = a\<rparr>] \<and>
         storedTranscript s3 = Some [\<lparr>role = Assistant, content = a\<rparr>] \<and>
         (case extractStateYaml a of
            Some y \<Rightarrow> lastYaml s3 = y \<and> drawerOpen s3
          | None \<Rightarrow> lastYaml s3 = [] \<and> \<not> drawerOpen s3)"
proof -
  have "extractStateYaml a = Some y \<Longrightarrow> y \<noteq> []" for y
    by (rule extractStateYaml_nonempty)
  then show ?thesis
    unfolding assms(2,3)
    by (auto simp: settle_def sendUserResume_def applyYaml_def persistEffects_def Let_def
        perform_def resetSession_def split: option.splits)
qed

theorem stale_reply_applied_witness:
  "perform [] (SendUser (js ''NEXT'')) 1000 localApp =
     (localApp\<lparr>lastAction := 1000, messages := [\<lparr>role = User, content = js ''NEXT''\<rparr>],
        busy := True, storedTranscript := Some [\<lparr>role = User, content = js ''NEXT''\<rparr>]\<rparr>,
      Some \<lparr>target = settings localApp, payload = [\<lparr>role = User, content = js ''NEXT''\<rparr>]\<rparr>) \<and>
   messages (settle (AfterSend (js ''NEXT'')) (Reply (js ''ok''))
     (fst (perform [] ResetSession 2000
       (localApp\<lparr>lastAction := 1000, messages := [\<lparr>role = User, content = js ''NEXT''\<rparr>],
          busy := True, storedTranscript := Some [\<lparr>role = User, content = js ''NEXT''\<rparr>]\<rparr>)))) =
     [\<lparr>role = Assistant, content = js ''ok''\<rparr>]"
  using localApp_next stale_reply_applied [OF localApp_next refl refl, where now' = 2000 and a = "js ''ok''"]
  by simp

text \<open>
  So the reply is not discarded: after a submission, a reset one second later and a reply
  with a block one second after that, the fresh session holds the stale reply and shows
  its block.
\<close>

theorem stale_reply_counterexample:
  "messages (fst (perform [] ResetSession 2000 (fst (perform [] (SendUser (js ''NEXT'')) 1000 localApp)))) = [] \<and>
   messages (settle (AfterSend (js ''NEXT'')) (Reply (js ''```yaml\<newline>STATE: x\<newline>```''))
     (fst (perform [] ResetSession 2000 (fst (perform [] (SendUser (js ''NEXT'')) 1000 localApp))))) =
     [\<lparr>role = Assistant, content = js ''```yaml\<newline>STATE: x\<newline>```''\<rparr>] \<and>
   lastYaml (settle (AfterSend (js ''NEXT'')) (Reply (js ''```yaml\<newline>STATE: x\<newline>```''))
     (fst (perform [] ResetSession 2000 (fst (perform [] (SendUser (js ''NEXT'')) 1000 localApp))))) =
     js ''STATE: x'' \<and>
   drawerOpen (settle (AfterSend (js ''NEXT'')) (Reply (js ''```yaml\<newline>STATE: x\<newline>```''))
     (fst (perform [] ResetSession 2000 (fst (perform [] (SendUser (js ''NEXT'')) 1000 localApp)))))"
  by (simp add: localApp_next)
    (simp add: perform_def resetSession_def persistEffects_def settle_def sendUserResume_def
      applyYaml_def extract_fenced_example localApp_def initialApp_def, simp add: js_def)

lemma startsWith_append_cases:
  "startsWith p (a @ b) \<Longrightarrow> startsWith p a \<or> (\<exists>q. p = a @ q \<and> q \<noteq> [] \<and> startsWith q b)"
proof (induction p a rule: startsWith.induct)
  case (1 u)
  then show ?case by simp
next
  case (2 p ps)
  then show ?case by simp
next
  case (3 p ps c cs)
  then show ?case by auto
qed

lemma startsWith_containsStr: "startsWith p u \<Longrightarrow> containsStr p u"
  by (cases u) auto

lemma progress_no_overlap:
  assumes "startsWith (js ''progress:'') (a @ js ''progress:'' @ r)" and "a \<noteq> []"
  shows "startsWith (js ''progress:'') a"
proof -
  from startsWith_append_cases [OF assms(1)]
  show ?thesis
  proof
    assume "startsWith (js ''progress:'') a"
    then show ?thesis .
  next
    assume "\<exists>q. js ''progress:'' = a @ q \<and> q \<noteq> [] \<and> startsWith q (js ''progress:'' @ r)"
    then obtain q where q: "js ''progress:'' = a @ q" "q \<noteq> []"
      "startsWith q (js ''progress:'' @ r)" by blast
    from q(1) q(2) assms(2) q(3) have False
      by (auto simp: js_def Cons_eq_append_conv)
    then show ?thesis ..
  qed
qed

lemma progressExec_skip:
  assumes "\<not> containsStr (js ''progress:'') pre"
  shows "progressExec key (pre @ js ''progress:'' @ r) = progressExec key (js ''progress:'' @ r)"
  using assms
proof (induction pre)
  case Nil
  then show ?case by simp
next
  case (Cons c cs)
  from Cons.prems have n: "\<not> startsWith (js ''progress:'') (c # cs)"
    and m: "\<not> containsStr (js ''progress:'') cs" by auto
  have "\<not> startsWith (js ''progress:'') ((c # cs) @ js ''progress:'' @ r)"
    using progress_no_overlap [of "c # cs" r] n by blast
  then have "progressAt key (c # cs @ js ''progress:'' @ r) = None"
    by (simp add: progressAt_def)
  with Cons.IH [OF m] show ?case by simp
qed


lemma digit_not_space: "isDigit c \<Longrightarrow> \<not> isSpace c"
  by (auto simp: isDigit_def isSpace_def isLineTerminator_def word_le_nat_alt)

lemma digits_then_other:
  assumes "\<forall>c\<in>set ds. isDigit c" and "\<not> isDigit x"
  shows "takeWhile isDigit (ds @ x # r) = ds"
  using assms by (induction ds) auto

lemma lastKeyMatch_prepend:
  assumes "lastKeyMatch key v = Some d" and "0x7D \<notin> set a"
  shows "lastKeyMatch key (a @ v) = Some d"
  using assms by (induction a) auto

lemma containsStr_append: "containsStr k v \<Longrightarrow> containsStr k (a @ v)"
  by (induction a) auto

lemma digitsAfterKey_starts: "digitsAfterKey key u = Some d \<Longrightarrow> startsWith key u"
  by (simp add: digitsAfterKey_def split: if_splits)

lemma lastKeyMatch_contains: "lastKeyMatch key u = Some d \<Longrightarrow> containsStr key u"
proof (induction u)
  case Nil
  then show ?case by (auto dest: digitsAfterKey_starts)
next
  case (Cons c cs)
  then show ?case
    by (auto dest: digitsAfterKey_starts split: if_splits option.splits)
qed

lemma progressAt_contains: "progressAt key u = Some d \<Longrightarrow> containsStr key u"
proof -
  assume a: "progressAt key u = Some d"
  then obtain c w where w: "dropWhile isSpace (drop 9 u) = c # w"
    and m: "lastKeyMatch key w = Some d"
    by (auto simp: progressAt_def split: if_splits list.splits)
  have "u = take 9 u @ takeWhile isSpace (drop 9 u) @ dropWhile isSpace (drop 9 u)"
    by simp
  then have u: "u = (take 9 u @ takeWhile isSpace (drop 9 u) @ [c]) @ w"
    by (simp add: w)
  from lastKeyMatch_contains [OF m] have "containsStr key ((take 9 u @ takeWhile isSpace (drop 9 u) @ [c]) @ w)"
    by (rule containsStr_append)
  with u show ?thesis by simp
qed

lemma progressExec_contains: "progressExec key u = Some d \<Longrightarrow> containsStr key u"
proof (induction u)
  case Nil
  then show ?case by simp
next
  case (Cons c cs)
  show ?case
  proof (cases "progressAt key (c # cs)")
    case None
    with Cons have "containsStr key cs" by simp
    then show ?thesis by simp
  next
    case (Some a)
    with Cons.prems have "progressAt key (c # cs) = Some d" by simp
    then show ?thesis by (rule progressAt_contains)
  qed
qed

lemma progressExec_none: "\<not> containsStr key u \<Longrightarrow> progressExec key u = None"
  using progressExec_contains [of key u] by (cases "progressExec key u") auto

lemma startsWith_takeWhile:
  "startsWith key u \<Longrightarrow> \<forall>c\<in>set key. P c \<Longrightarrow> startsWith key (takeWhile P u)"
  by (induction key u rule: startsWith.induct) auto

lemma lastKeyMatch_run:
  assumes "lastKeyMatch key u = Some d" and "key \<noteq> []" and "0x7D \<notin> set key"
  shows "containsStr key (takeWhile (\<lambda>c. c \<noteq> 0x7D) u)"
  using assms
proof (induction u arbitrary: d)
  case Nil
  then show ?case by (auto simp: digitsAfterKey_def split: if_splits)
next
  case (Cons c cs)
  show ?case
  proof (cases "c = 0x7D")
    case True
    with Cons.prems have "startsWith key (c # cs)" by (auto dest: digitsAfterKey_starts)
    with True Cons.prems(2,3) show ?thesis by (cases key) auto
  next
    case False
    show ?thesis
    proof (cases "lastKeyMatch key cs")
      case (Some a)
      from Cons.IH [OF Some Cons.prems(2,3)]
      have "containsStr key (takeWhile (\<lambda>c. c \<noteq> 0x7D) cs)" .
      with False show ?thesis by simp
    next
      case None
      with False Cons.prems(1) have "startsWith key (c # cs)" by (auto dest: digitsAfterKey_starts)
      then have "startsWith key (takeWhile (\<lambda>c. c \<noteq> 0x7D) (c # cs))"
        by (rule startsWith_takeWhile) (use Cons.prems(3) in auto)
      then show ?thesis by (rule startsWith_containsStr)
    qed
  qed
qed

lemma containsStr_skip:
  assumes "\<forall>c\<in>set a. c \<noteq> k"
  shows "containsStr (k # key) (a @ b) = containsStr (k # key) b"
  using assms by (induction a) auto

lemma takeWhile_all: "\<forall>c\<in>set a. P c \<Longrightarrow> takeWhile P (a @ b) = a @ takeWhile P b"
  by (induction a) auto

lemma lastKeyMatch_hit:
  assumes ov: "\<And>x. containsStr (k # key) (key @ x) \<Longrightarrow> containsStr (k # key) x"
    and k: "0x7D \<notin> set (k # key)" "\<not> isSpace k" "\<not> isDigit k"
    and ws: "\<forall>c\<in>set ws. isSpace c"
    and ds: "ds \<noteq> []" "\<forall>c\<in>set ds. isDigit c"
    and rest: "rest = [] \<or> \<not> isDigit (hd rest)"
    and no: "\<not> containsStr (k # key) (takeWhile (\<lambda>c. c \<noteq> 0x7D) rest)"
  shows "lastKeyMatch (k # key) ((k # key) @ ws @ ds @ rest) = Some ds"
proof -
  let ?P = "\<lambda>c::jschar. c \<noteq> 0x7D"
  have sp: "\<forall>c\<in>set ws. c \<noteq> 0x7D \<and> c \<noteq> k"
    using ws k(2) by (auto simp: isSpace_def isLineTerminator_def)
  have dg: "\<forall>c\<in>set ds. c \<noteq> 0x7D \<and> c \<noteq> k"
    using ds(2) k(3) by (auto simp: isDigit_def)
  have ky: "\<forall>c\<in>set key. c \<noteq> 0x7D"
    using k(1) by auto
  have "takeWhile ?P (ds @ rest) = ds @ takeWhile ?P rest"
    using dg by (intro takeWhile_all) simp
  moreover have "takeWhile ?P (ws @ ds @ rest) = ws @ takeWhile ?P (ds @ rest)"
    using sp by (intro takeWhile_all) simp
  moreover have "takeWhile ?P (key @ ws @ ds @ rest) = key @ takeWhile ?P (ws @ ds @ rest)"
    using ky by (intro takeWhile_all) simp
  ultimately have tw: "takeWhile ?P (key @ ws @ ds @ rest) = key @ ws @ ds @ takeWhile ?P rest"
    by simp
  have n: "lastKeyMatch (k # key) (key @ ws @ ds @ rest) = None"
  proof (rule ccontr)
    assume "lastKeyMatch (k # key) (key @ ws @ ds @ rest) \<noteq> None"
    then obtain d where "lastKeyMatch (k # key) (key @ ws @ ds @ rest) = Some d" by auto
    from lastKeyMatch_run [OF this] k(1)
    have "containsStr (k # key) (key @ ws @ ds @ takeWhile ?P rest)" by (simp add: tw)
    then have "containsStr (k # key) (ws @ ds @ takeWhile ?P rest)" by (rule ov)
    then have "containsStr (k # key) (takeWhile ?P rest)"
      using sp dg by (simp add: containsStr_skip)
    with no show False ..
  qed
  have d1: "dropWhile isSpace (ws @ ds @ rest) = ds @ rest"
  proof -
    obtain x xs where x: "ds = x # xs" using ds(1) by (cases ds) auto
    with ds(2) have "\<not> isSpace x" by (simp add: digit_not_space)
    with ws x show ?thesis by (simp add: dropWhile_append3 dropWhile_all_then)
  qed
  have d2: "takeWhile isDigit (ds @ rest) = ds"
    using rest ds(2) by (cases rest) (auto simp: digits_then_other)
  have s: "startsWith (k # key) ((k # key) @ ws @ ds @ rest)"
    by (rule startsWith_self)
  have "digitsAfterKey (k # key) ((k # key) @ ws @ ds @ rest) = Some ds"
    using s d1 d2 ds(1) by (simp add: digitsAfterKey_def)
  with n k(1) show ?thesis by simp
qed

lemma firstMapping_exec:
  assumes ov: "\<And>x. containsStr (k # key) (key @ x) \<Longrightarrow> containsStr (k # key) x"
    and k: "0x7D \<notin> set (k # key)" "\<not> isSpace k" "\<not> isDigit k"
    and m: "firstMappingHas (k # key) y ds"
  shows "progressExec (k # key) y = Some ds"
proof -
  from m obtain pre ws seg ws' rest where
    y: "y = pre @ js ''progress:'' @ ws @ 0x7B # seg @ (k # key) @ ws' @ ds @ rest"
    and p: "\<not> containsStr (js ''progress:'') pre"
    and ws: "\<forall>c\<in>set ws. isSpace c" and seg: "0x7D \<notin> set seg"
    and h: "\<forall>c\<in>set ws'. isSpace c" "ds \<noteq> []" "\<forall>c\<in>set ds. isDigit c"
      "rest = [] \<or> \<not> isDigit (hd rest)"
      "\<not> containsStr (k # key) (takeWhile (\<lambda>c. c \<noteq> 0x7D) rest)"
    unfolding firstMappingHas_def by blast
  let ?w = "seg @ (k # key) @ ws' @ ds @ rest"
  have 1: "lastKeyMatch (k # key) ?w = Some ds"
    using lastKeyMatch_hit [OF ov k h] seg by (rule lastKeyMatch_prepend)
  have 2: "dropWhile isSpace (ws @ 0x7B # ?w) = 0x7B # ?w"
    using ws by (rule dropWhile_all_then) (simp add: isSpace_def isLineTerminator_def)
  have "progressAt (k # key) (js ''progress:'' @ ws @ 0x7B # ?w) = Some ds"
    using 1 2 by (simp add: progressAt_def js_def)
  then have "progressExec (k # key) (js ''progress:'' @ ws @ 0x7B # ?w) = Some ds"
    by (simp add: js_def)
  with progressExec_skip [OF p, of "k # key" "ws @ 0x7B # ?w"] show ?thesis
    by (simp add: y)
qed

lemma current_exec:
  "firstMappingHas (js ''current_stage:'') y ds \<Longrightarrow> progressExec (js ''current_stage:'') y = Some ds"
proof -
  assume m: "firstMappingHas (js ''current_stage:'') y ds"
  have ov: "containsStr (js ''current_stage:'') (js ''urrent_stage:'' @ x) \<Longrightarrow>
      containsStr (js ''current_stage:'') x" for x
    by (simp add: js_def)
  have e: "js ''current_stage:'' = 0x63 # js ''urrent_stage:''" by (simp add: js_def)
  show ?thesis
    using m ov unfolding e
    by (intro firstMapping_exec) (simp_all add: js_def isSpace_def isLineTerminator_def isDigit_def)
qed

lemma total_exec:
  "firstMappingHas (js ''stages_total:'') y ds \<Longrightarrow> progressExec (js ''stages_total:'') y = Some ds"
proof -
  assume m: "firstMappingHas (js ''stages_total:'') y ds"
  have ov: "containsStr (js ''stages_total:'') (js ''tages_total:'' @ x) \<Longrightarrow>
      containsStr (js ''stages_total:'') x" for x
    by (simp add: js_def)
  have e: "js ''stages_total:'' = 0x73 # js ''tages_total:''" by (simp add: js_def)
  show ?thesis
    using m ov unfolding e
    by (intro firstMapping_exec) (simp_all add: js_def isSpace_def isLineTerminator_def isDigit_def)
qed

lemma firstMappingHasI:
  assumes "\<not> containsStr (js ''progress:'') pre" and "\<forall>c\<in>set ws. isSpace c"
    and "0x7D \<notin> set seg" and "\<forall>c\<in>set ws'. isSpace c"
    and "ds \<noteq> []" and "\<forall>c\<in>set ds. isDigit c"
    and "rest = [] \<or> \<not> isDigit (hd rest)"
    and "\<not> containsStr key (takeWhile (\<lambda>c. c \<noteq> 0x7D) rest)"
  shows "firstMappingHas key (pre @ js ''progress:'' @ ws @ 0x7B # seg @ key @ ws' @ ds @ rest) ds"
  unfolding firstMappingHas_def using assms by blast

section \<open>The progress display\<close>

text \<open>
  Claim C6, amended. \<open>parseStageProgress\<close> returns a record for every input and has no
  failing path. On absent or empty input it gives no current stage and the total 8. When
  the first \<open>progress:\<close> of the text opens a mapping that holds \<open>current_stage:\<close> and
  \<open>stages_total:\<close>, each followed by a numeral, it gives the numbers of the two numerals;
  when the mapping holds \<open>current_stage:\<close> with a numeral and the text has no
  \<open>stages_total:\<close> anywhere, it gives the number of the numeral and the default total 8.
  The number of a numeral is its value when that is at most \<open>2^53\<close>.
\<close>

theorem progress_parser:
  "parseStageProgress None = \<lparr>current = None, total = Exactly 8\<rparr> \<and>
   parseStageProgress (Some []) = \<lparr>current = None, total = Exactly 8\<rparr> \<and>
   (firstMappingHas (js ''current_stage:'') y ds1 \<and> firstMappingHas (js ''stages_total:'') y ds2 \<longrightarrow>
      parseStageProgress (Some y) = \<lparr>current = Some (toNumber ds1), total = toNumber ds2\<rparr>) \<and>
   (firstMappingHas (js ''current_stage:'') y ds1 \<and> \<not> containsStr (js ''stages_total:'') y \<longrightarrow>
      parseStageProgress (Some y) = \<lparr>current = Some (toNumber ds1), total = Exactly 8\<rparr>) \<and>
   (digitsValue ds \<le> 9007199254740992 \<longrightarrow> toNumber ds = Exactly (digitsValue ds))"
proof -
  have ne: "y \<noteq> []" if "firstMappingHas (js ''current_stage:'') y ds1"
    using that by (auto simp: firstMappingHas_def js_def)
  have both: "parseStageProgress (Some y) = \<lparr>current = Some (toNumber ds1), total = toNumber ds2\<rparr>"
    if 1: "firstMappingHas (js ''current_stage:'') y ds1"
      and 2: "firstMappingHas (js ''stages_total:'') y ds2"
    using ne [OF 1] current_exec [OF 1] total_exec [OF 2]
    by (simp add: parseStageProgress_def)
  have one: "parseStageProgress (Some y) = \<lparr>current = Some (toNumber ds1), total = Exactly 8\<rparr>"
    if 1: "firstMappingHas (js ''current_stage:'') y ds1"
      and 2: "\<not> containsStr (js ''stages_total:'') y"
    using ne [OF 1] current_exec [OF 1] progressExec_none [OF 2]
    by (simp add: parseStageProgress_def)
  show ?thesis
    using both one by (simp add: parseStageProgress_def toNumber_def)
qed

lemma claimed_layout:
  "firstMappingHas (js ''current_stage:'')
     (js ''STATE:\<newline>  progress: {current_stage: 3, stages_total: 8}\<newline>'') (js ''3'')"
  "firstMappingHas (js ''stages_total:'')
     (js ''STATE:\<newline>  progress: {current_stage: 3, stages_total: 8}\<newline>'') (js ''8'')"
proof -
  have "firstMappingHas (js ''current_stage:'')
      (js ''STATE:\<newline>  '' @ js ''progress:'' @ js '' '' @ 0x7B # [] @ js ''current_stage:'' @ js '' '' @
         js ''3'' @ js '', stages_total: 8}\<newline>'') (js ''3'')"
    by (rule firstMappingHasI)
      (simp_all add: js_def isSpace_def isLineTerminator_def isDigit_def)
  then show "firstMappingHas (js ''current_stage:'')
     (js ''STATE:\<newline>  progress: {current_stage: 3, stages_total: 8}\<newline>'') (js ''3'')"
    by (simp add: js_def)
  have "firstMappingHas (js ''stages_total:'')
      (js ''STATE:\<newline>  '' @ js ''progress:'' @ js '' '' @ 0x7B # js ''current_stage: 3, '' @
         js ''stages_total:'' @ js '' '' @ js ''8'' @ js ''}\<newline>'') (js ''8'')"
    by (rule firstMappingHasI)
      (simp_all add: js_def isSpace_def isLineTerminator_def isDigit_def)
  then show "firstMappingHas (js ''stages_total:'')
     (js ''STATE:\<newline>  progress: {current_stage: 3, stages_total: 8}\<newline>'') (js ''8'')"
    by (simp add: js_def)
qed

lemma compact_layout:
  "firstMappingHas (js ''current_stage:'')
     (js ''progress: {current_stage:4, state_visible:false}'') (js ''4'')"
proof -
  have "firstMappingHas (js ''current_stage:'')
      ([] @ js ''progress:'' @ js '' '' @ 0x7B # [] @ js ''current_stage:'' @ [] @
         js ''4'' @ js '', state_visible:false}'') (js ''4'')"
    by (rule firstMappingHasI)
      (simp_all add: js_def isSpace_def isLineTerminator_def isDigit_def)
  then show ?thesis
    by (simp add: js_def)
qed

theorem progress_parser_witness:
  "firstMappingHas (js ''current_stage:'')
     (js ''STATE:\<newline>  progress: {current_stage: 3, stages_total: 8}\<newline>'') (js ''3'') \<and>
   firstMappingHas (js ''stages_total:'')
     (js ''STATE:\<newline>  progress: {current_stage: 3, stages_total: 8}\<newline>'') (js ''8'') \<and>
   parseStageProgress
     (Some (js ''STATE:\<newline>  progress: {current_stage: 3, stages_total: 8}\<newline>'')) =
     \<lparr>current = Some (Exactly 3), total = Exactly 8\<rparr> \<and>
   firstMappingHas (js ''current_stage:'')
     (js ''progress: {current_stage:4, state_visible:false}'') (js ''4'') \<and>
   \<not> containsStr (js ''stages_total:'') (js ''progress: {current_stage:4, state_visible:false}'') \<and>
   parseStageProgress (Some (js ''progress: {current_stage:4, state_visible:false}'')) =
     \<lparr>current = Some (Exactly 4), total = Exactly 8\<rparr> \<and>
   digitsValue (js ''3'') \<le> 9007199254740992 \<and> toNumber (js ''3'') = Exactly 3"
proof -
  have n: "\<not> containsStr (js ''stages_total:'') (js ''progress: {current_stage:4, state_visible:false}'')"
    by (simp add: js_def)
  have v: "toNumber (js ''3'') = Exactly 3" "toNumber (js ''8'') = Exactly 8"
    "toNumber (js ''4'') = Exactly 4" "digitsValue (js ''3'') \<le> 9007199254740992"
    by (simp_all add: toNumber_def digitsValue_def js_def)
  show ?thesis
    using claimed_layout compact_layout n v
      progress_parser [where y = "js ''STATE:\<newline>  progress: {current_stage: 3, stages_total: 8}\<newline>''"
        and ?ds1.0 = "js ''3''" and ?ds2.0 = "js ''8''" and ds = "js ''3''"]
      progress_parser [where y = "js ''progress: {current_stage:4, state_visible:false}''"
        and ?ds1.0 = "js ''4''"]
    by simp
qed

text \<open>
  For a text that merely contains the mapping the statement fails: \<open>exec\<close> returns the
  leftmost match, so an earlier \<open>progress:\<close> mapping decides the current stage.
\<close>

theorem earlier_progress_counterexample:
  "containsStr (js ''progress: {current_stage: 3, stages_total: 8}'')
     (js ''progress: {current_stage: 5} progress: {current_stage: 3, stages_total: 8}'') \<and>
   parseStageProgress
     (Some (js ''progress: {current_stage: 5} progress: {current_stage: 3, stages_total: 8}'')) =
     \<lparr>current = Some (Exactly 5), total = Exactly 8\<rparr> \<and>
   parseStageProgress
     (Some (js ''progress: {current_stage: 5} progress: {current_stage: 3, stages_total: 8}'')) \<noteq>
     \<lparr>current = Some (Exactly 3), total = Exactly 8\<rparr>"
  by (simp add: parseStageProgress_def js_def progressAt_def digitsAfterKey_def isSpace_def
      isLineTerminator_def isDigit_def toNumber_def digitsValue_def)

lemma startsWith_decomp: "startsWith p u \<Longrightarrow> u = p @ drop (length p) u"
  by (induction p u rule: startsWith.induct) auto

lemma length_fence: "length fence = 3"
  by (simp add: fence_def)

lemma fence_decomp: "startsWith fence u \<Longrightarrow> u = fence @ drop 3 u"
  using startsWith_decomp [of fence u] by (simp add: length_fence)

lemma startsWith_mono: "startsWith p a \<Longrightarrow> startsWith p (a @ x)"
  by (induction p a rule: startsWith.induct) auto

lemma startsWith_shorten: "startsWith p (a @ x) \<Longrightarrow> length p \<le> length a \<Longrightarrow> startsWith p a"
  by (induction p a rule: startsWith.induct) auto

lemma splitAtFence_sound:
  "splitAtFence w = Some (b, r) \<Longrightarrow>
     w = b @ fence @ r \<and> (\<forall>i<length b. \<not> startsWith fence (drop i (b @ fence)))"
proof (induction w arbitrary: b r)
  case Nil
  then show ?case by simp
next
  case (Cons c cs)
  show ?case
  proof (cases "startsWith fence (c # cs)")
    case True
    with Cons.prems have b: "b = []" and r: "r = drop 3 (c # cs)" by auto
    from True have "c # cs = fence @ drop 3 (c # cs)"
      by (rule fence_decomp)
    with b r show ?thesis by simp
  next
    case False
    with Cons.prems obtain b' where s: "splitAtFence cs = Some (b', r)" and b: "b = c # b'"
      by auto
    from Cons.IH [OF s] have cs: "cs = b' @ fence @ r"
      and m: "\<forall>i<length b'. \<not> startsWith fence (drop i (b' @ fence))" by auto
    have 0: "\<not> startsWith fence ((c # b') @ fence)"
    proof
      assume "startsWith fence ((c # b') @ fence)"
      then have "startsWith fence (((c # b') @ fence) @ r)" by (rule startsWith_mono)
      with False cs show False by simp
    qed
    have "\<not> startsWith fence (drop i ((c # b') @ fence))" if "i < length (c # b')" for i
      using that 0 m by (cases i) auto
    with cs b show ?thesis by simp
  qed
qed

lemma splitAtFence_complete:
  "\<forall>i<length b. \<not> startsWith fence (drop i (b @ fence)) \<Longrightarrow>
     splitAtFence (b @ fence @ r) = Some (b, r)"
proof (induction b)
  case Nil
  then show ?case by (simp add: fence_def)
next
  case (Cons c b)
  from Cons.prems have 0: "\<not> startsWith fence ((c # b) @ fence)" by force
  have n: "\<not> startsWith fence (c # b @ fence @ r)"
  proof
    assume "startsWith fence (c # b @ fence @ r)"
    then have "startsWith fence (((c # b) @ fence) @ r)" by simp
    then have "startsWith fence ((c # b) @ fence)"
      by (rule startsWith_shorten) (simp add: fence_def)
    with 0 show False ..
  qed
  have "\<forall>i<length b. \<not> startsWith fence (drop i (b @ fence))"
    using Cons.prems by force
  from Cons.IH [OF this] n show ?case by simp
qed

lemma plainAt_unfold:
  "plainAt u b r \<longleftrightarrow>
     (\<exists>tag. (\<forall>c\<in>set tag. isAsciiLetter c) \<and> u = fence @ tag @ 0x0A # b @ fence @ r) \<and>
     (\<forall>i<length b. \<not> startsWith fence (drop i (b @ fence)))"
proof -
  have "0x0A \<notin> set tag \<and> 0x60 \<notin> set tag" if "\<forall>c\<in>set tag. isAsciiLetter c" for tag
    using that by (auto simp: isAsciiLetter_def)
  then show ?thesis
    unfolding plainAt_def fencedAt_def by blast
qed

lemma matchHere_iff: "matchHere u = Some (b, r) \<longleftrightarrow> plainAt u b r"
proof
  assume m: "matchHere u = Some (b, r)"
  then have f: "startsWith fence u" by (simp add: matchHere_def split: if_splits)
  from m f obtain w where d: "dropWhile isAsciiLetter (drop 3 u) = 0x0A # w"
    and s: "splitAtFence w = Some (b, r)"
    by (auto simp: matchHere_def split: list.splits if_splits)
  define tag where "tag = takeWhile isAsciiLetter (drop 3 u)"
  have "drop 3 u = tag @ dropWhile isAsciiLetter (drop 3 u)" by (simp add: tag_def)
  with d have 1: "drop 3 u = tag @ 0x0A # w" by simp
  from f have "u = fence @ drop 3 u" by (rule fence_decomp)
  with 1 have 2: "u = fence @ tag @ 0x0A # w" by simp
  have 3: "\<forall>c\<in>set tag. isAsciiLetter c"
    by (auto simp: tag_def dest: set_takeWhileD)
  from splitAtFence_sound [OF s] 2 3 show "plainAt u b r"
    by (auto simp: plainAt_unfold)
next
  assume "plainAt u b r"
  then obtain tag where t: "\<forall>c\<in>set tag. isAsciiLetter c"
    and u: "u = fence @ tag @ 0x0A # b @ fence @ r"
    and m: "\<forall>i<length b. \<not> startsWith fence (drop i (b @ fence))"
    by (auto simp: plainAt_unfold)
  have f: "startsWith fence u" unfolding u by (rule startsWith_self)
  have "drop 3 u = tag @ 0x0A # b @ fence @ r" by (simp add: u fence_def)
  moreover have "dropWhile isAsciiLetter (tag @ 0x0A # b @ fence @ r) = 0x0A # b @ fence @ r"
    using t by (rule dropWhile_all_then) (simp add: isAsciiLetter_def)
  ultimately show "matchHere u = Some (b, r)"
    using f splitAtFence_complete [OF m, of r] by (simp add: matchHere_def)
qed

lemma matchHere_None_iff: "matchHere u = None \<longleftrightarrow> (\<forall>b r. \<not> plainAt u b r)"
  using matchHere_iff [of u] by (cases "matchHere u") auto


lemma plainAt_Nil: "\<not> plainAt [] b r"
  by (simp add: plainAt_unfold fence_def)

lemma plainAt_unique: "plainAt u b r \<Longrightarrow> plainAt u b' r' \<Longrightarrow> b' = b \<and> r' = r"
  using matchHere_iff [of u b r] matchHere_iff [of u b' r'] by simp

lemma codeBlockExec_None_iff:
  "codeBlockExec t = None \<longleftrightarrow> (\<forall>i b r. \<not> plainAt (drop i t) b r)"
proof (induction t)
  case Nil
  then show ?case by (simp add: plainAt_Nil)
next
  case (Cons c cs)
  have "(\<forall>i b r. \<not> plainAt (drop i (c # cs)) b r) \<longleftrightarrow>
      (\<forall>b r. \<not> plainAt (c # cs) b r) \<and> (\<forall>i b r. \<not> plainAt (drop i cs) b r)"
  proof
    assume a: "\<forall>i b r. \<not> plainAt (drop i (c # cs)) b r"
    show "(\<forall>b r. \<not> plainAt (c # cs) b r) \<and> (\<forall>i b r. \<not> plainAt (drop i cs) b r)"
    proof (intro conjI allI)
      fix b r
      from a [rule_format, of 0 b r] show "\<not> plainAt (c # cs) b r" by simp
    next
      fix i b r
      from a [rule_format, of "Suc i" b r] show "\<not> plainAt (drop i cs) b r" by simp
    qed
  next
    assume a: "(\<forall>b r. \<not> plainAt (c # cs) b r) \<and> (\<forall>i b r. \<not> plainAt (drop i cs) b r)"
    show "\<forall>i b r. \<not> plainAt (drop i (c # cs)) b r"
    proof (intro allI)
      fix i b r
      show "\<not> plainAt (drop i (c # cs)) b r"
        using a by (cases i) auto
    qed
  qed
  with Cons show ?case
    by (simp add: matchHere_None_iff [symmetric] split: option.splits)
qed

lemma codeBlockExec_Some_iff:
  "codeBlockExec t = Some (b, r) \<longleftrightarrow>
     (\<exists>i. plainAt (drop i t) b r \<and> (\<forall>j<i. \<forall>b' r'. \<not> plainAt (drop j t) b' r'))"
proof (induction t)
  case Nil
  then show ?case by (simp add: plainAt_Nil)
next
  case (Cons c cs)
  show ?case
  proof (cases "matchHere (c # cs)")
    case None
    then have n: "\<forall>b r. \<not> plainAt (c # cs) b r" by (simp add: matchHere_None_iff)
    have "(\<exists>i. plainAt (drop i (c # cs)) b r \<and> (\<forall>j<i. \<forall>b' r'. \<not> plainAt (drop j (c # cs)) b' r'))
      \<longleftrightarrow> (\<exists>i. plainAt (drop i cs) b r \<and> (\<forall>j<i. \<forall>b' r'. \<not> plainAt (drop j cs) b' r'))"
    proof
      assume "\<exists>i. plainAt (drop i (c # cs)) b r \<and> (\<forall>j<i. \<forall>b' r'. \<not> plainAt (drop j (c # cs)) b' r')"
      then obtain i where i: "plainAt (drop i (c # cs)) b r"
        and m: "\<forall>j<i. \<forall>b' r'. \<not> plainAt (drop j (c # cs)) b' r'" by blast
      from i n obtain k where k: "i = Suc k" by (cases i) auto
      have "\<forall>j<k. \<forall>b' r'. \<not> plainAt (drop j cs) b' r'"
      proof (intro allI impI)
        fix j b' r'
        assume "j < k"
        then have "Suc j < i" by (simp add: k)
        from m [rule_format, OF this, of b' r'] show "\<not> plainAt (drop j cs) b' r'" by simp
      qed
      with i k show "\<exists>i. plainAt (drop i cs) b r \<and> (\<forall>j<i. \<forall>b' r'. \<not> plainAt (drop j cs) b' r')"
        by auto
    next
      assume "\<exists>i. plainAt (drop i cs) b r \<and> (\<forall>j<i. \<forall>b' r'. \<not> plainAt (drop j cs) b' r')"
      then obtain i where i: "plainAt (drop i cs) b r"
        and m: "\<forall>j<i. \<forall>b' r'. \<not> plainAt (drop j cs) b' r'" by blast
      have "\<forall>j<Suc i. \<forall>b' r'. \<not> plainAt (drop j (c # cs)) b' r'"
      proof (intro allI impI)
        fix j b' r'
        assume "j < Suc i"
        then show "\<not> plainAt (drop j (c # cs)) b' r'"
          using n m by (cases j) auto
      qed
      moreover have "plainAt (drop (Suc i) (c # cs)) b r" using i by simp
      ultimately show "\<exists>i. plainAt (drop i (c # cs)) b r \<and>
          (\<forall>j<i. \<forall>b' r'. \<not> plainAt (drop j (c # cs)) b' r')" by blast
    qed
    with None Cons show ?thesis by simp
  next
    case (Some p)
    obtain b0 r0 where p: "p = (b0, r0)" by (cases p)
    with Some have r0: "plainAt (c # cs) b0 r0" by (simp add: matchHere_iff)
    have "(\<exists>i. plainAt (drop i (c # cs)) b r \<and> (\<forall>j<i. \<forall>b' r'. \<not> plainAt (drop j (c # cs)) b' r'))
      \<longleftrightarrow> b = b0 \<and> r = r0"
    proof
      assume "\<exists>i. plainAt (drop i (c # cs)) b r \<and> (\<forall>j<i. \<forall>b' r'. \<not> plainAt (drop j (c # cs)) b' r')"
      then obtain i where i: "plainAt (drop i (c # cs)) b r"
        and m: "\<forall>j<i. \<forall>b' r'. \<not> plainAt (drop j (c # cs)) b' r'" by blast
      have "i = 0"
      proof (rule ccontr)
        assume "i \<noteq> 0"
        then have "0 < i" by simp
        from m [rule_format, OF this, of b0 r0] r0 show False by simp
      qed
      with i have "plainAt (c # cs) b r" by simp
      from plainAt_unique [OF r0 this] show "b = b0 \<and> r = r0" .
    next
      assume "b = b0 \<and> r = r0"
      with r0 have "plainAt (drop 0 (c # cs)) b r \<and> (\<forall>j<0. \<forall>b' r'. \<not> plainAt (drop j (c # cs)) b' r')"
        by simp
      then show "\<exists>i. plainAt (drop i (c # cs)) b r \<and> (\<forall>j<i. \<forall>b' r'. \<not> plainAt (drop j (c # cs)) b' r')"
        by blast
    qed
    with Some p show ?thesis by auto
  qed
qed


lemma extractLoop_codeBlocks:
  "extractLoop t acc =
     (case filter hasStateLine (codeBlocks t) of [] \<Rightarrow> acc | q # qs \<Rightarrow> Some (trim (last (q # qs))))"
proof (induction t acc rule: extractLoop.induct)
  case (1 t lastYaml)
  show ?case
  proof (cases "codeBlockExec t")
    case None
    then show ?thesis
      by (simp add: extractLoop.simps [of t] codeBlocks.simps [of t])
  next
    case (Some p)
    obtain b r where p: "p = (b, r)" by (cases p)
    from "1.IH" [OF Some p [symmetric]]
    have "extractLoop r (if hasStateLine b then Some (trim b) else lastYaml) =
      (case filter hasStateLine (codeBlocks r) of
         [] \<Rightarrow> if hasStateLine b then Some (trim b) else lastYaml
       | q # qs \<Rightarrow> Some (trim (last (q # qs))))" .
    with Some p show ?thesis
      by (simp add: extractLoop.simps [of t] codeBlocks.simps [of t] split: list.splits)
  qed
qed

lemma stateAt_unfold:
  "stateAt u \<longleftrightarrow>
     startsWith (js ''STATE'') (dropWhile isSpace u) \<and>
     (\<exists>w. dropWhile isSpace (drop 5 (dropWhile isSpace u)) = 0x3A # w)"
proof -
  have "(case xs of [] \<Rightarrow> False | c # w \<Rightarrow> c = (0x3A::jschar)) \<longleftrightarrow> (\<exists>w. xs = 0x3A # w)" for xs
    by (cases xs) simp_all
  then show ?thesis
    by (simp only: stateAt_def Let_def)
qed

lemma drop_length_append: "drop (length a) (a @ r) = r"
  by simp

lemma length_STATE: "length (js ''STATE'') = 5"
  by (simp add: js_def)

lemma stateAt_iff:
  "stateAt u \<longleftrightarrow>
     (\<exists>ws1 ws2 post. u = ws1 @ js ''STATE'' @ ws2 @ 0x3A # post \<and>
        (\<forall>c\<in>set ws1. isSpace c) \<and> (\<forall>c\<in>set ws2. isSpace c))"
proof
  assume a: "stateAt u"
  define v where "v = dropWhile isSpace u"
  define x where "x = drop 5 v"
  from a have s: "startsWith (js ''STATE'') v"
    unfolding stateAt_unfold v_def by (rule conjunct1)
  from a have "\<exists>w. dropWhile isSpace x = 0x3A # w"
    unfolding stateAt_unfold v_def x_def by (rule conjunct2)
  then obtain w where w: "dropWhile isSpace x = 0x3A # w" ..
  have 1: "u = takeWhile isSpace u @ v" by (simp add: v_def)
  from startsWith_decomp [OF s] have 2: "v = js ''STATE'' @ x"
    unfolding length_STATE x_def .
  have "x = takeWhile isSpace x @ dropWhile isSpace x" by simp
  then have 3: "x = takeWhile isSpace x @ 0x3A # w" unfolding w .
  have "u = takeWhile isSpace u @ js ''STATE'' @ takeWhile isSpace x @ 0x3A # w"
    using 1 2 3 by metis
  moreover have "\<forall>c\<in>set (takeWhile isSpace u). isSpace c" "\<forall>c\<in>set (takeWhile isSpace x). isSpace c"
    by (auto dest: set_takeWhileD)
  ultimately show "\<exists>ws1 ws2 post. u = ws1 @ js ''STATE'' @ ws2 @ 0x3A # post \<and>
        (\<forall>c\<in>set ws1. isSpace c) \<and> (\<forall>c\<in>set ws2. isSpace c)" by blast
next
  assume "\<exists>ws1 ws2 post. u = ws1 @ js ''STATE'' @ ws2 @ 0x3A # post \<and>
        (\<forall>c\<in>set ws1. isSpace c) \<and> (\<forall>c\<in>set ws2. isSpace c)"
  then obtain ws1 ws2 post where u: "u = ws1 @ js ''STATE'' @ ws2 @ 0x3A # post"
    and 1: "\<forall>c\<in>set ws1. isSpace c" and 2: "\<forall>c\<in>set ws2. isSpace c" by blast
  have S: "js ''STATE'' @ ws2 @ 0x3A # post = 0x53 # (js ''TATE'' @ ws2 @ 0x3A # post)"
    by (simp add: js_def)
  have "dropWhile isSpace (ws1 @ 0x53 # (js ''TATE'' @ ws2 @ 0x3A # post)) =
      0x53 # (js ''TATE'' @ ws2 @ 0x3A # post)"
    using 1 by (rule dropWhile_all_then) (simp add: isSpace_def isLineTerminator_def)
  then have v: "dropWhile isSpace u = js ''STATE'' @ ws2 @ 0x3A # post"
    unfolding u S .
  have x: "dropWhile isSpace (ws2 @ 0x3A # post) = 0x3A # post"
    using 2 by (rule dropWhile_all_then) (simp add: isSpace_def isLineTerminator_def)
  have st: "startsWith (js ''STATE'') (js ''STATE'' @ ws2 @ 0x3A # post)"
    by (rule startsWith_self)
  have "drop (length (js ''STATE'')) (js ''STATE'' @ ws2 @ 0x3A # post) = ws2 @ 0x3A # post"
    by (rule drop_length_append)
  then have d: "drop 5 (js ''STATE'' @ ws2 @ 0x3A # post) = ws2 @ 0x3A # post"
    unfolding length_STATE .
  show "stateAt u"
    unfolding stateAt_unfold v d x
  proof (intro conjI exI)
    show "startsWith (js ''STATE'') (js ''STATE'' @ ws2 @ 0x3A # post)" by (rule st)
    show "0x3A # post = 0x3A # post" by (rule refl)
  qed
qed

lemma stateTestFrom_iff:
  "stateTestFrom bol u \<longleftrightarrow>
     (\<exists>pre rest. u = pre @ rest \<and> stateAt rest \<and>
        (if pre = [] then bol else isLineTerminator (last pre)))"
proof (induction u arbitrary: bol)
  case Nil
  have "\<not> stateAt []" by (simp add: stateAt_def js_def)
  then show ?case by simp
next
  case (Cons c cs)
  show ?case
  proof
    assume "stateTestFrom bol (c # cs)"
    then consider "bol" "stateAt (c # cs)" | "stateTestFrom (isLineTerminator c) cs" by auto
    then show "\<exists>pre rest. c # cs = pre @ rest \<and> stateAt rest \<and>
        (if pre = [] then bol else isLineTerminator (last pre))"
    proof cases
      case 1
      then have "c # cs = [] @ (c # cs) \<and> stateAt (c # cs) \<and>
        (if ([]::jsstring) = [] then bol else isLineTerminator (last []))" by simp
      then show ?thesis by blast
    next
      case 2
      then obtain pre rest where r: "cs = pre @ rest" "stateAt rest"
        "if pre = [] then isLineTerminator c else isLineTerminator (last pre)"
        using Cons.IH by blast
      then have "c # cs = (c # pre) @ rest \<and> stateAt rest \<and>
        (if c # pre = [] then bol else isLineTerminator (last (c # pre)))"
        by (auto split: if_splits)
      then show ?thesis by blast
    qed
  next
    assume "\<exists>pre rest. c # cs = pre @ rest \<and> stateAt rest \<and>
        (if pre = [] then bol else isLineTerminator (last pre))"
    then obtain pre rest where r: "c # cs = pre @ rest" "stateAt rest"
      "if pre = [] then bol else isLineTerminator (last pre)" by blast
    show "stateTestFrom bol (c # cs)"
    proof (cases pre)
      case Nil
      with r have "bol" "stateAt (c # cs)" by auto
      then show ?thesis by simp
    next
      case (Cons d ds)
      with r have cs: "cs = ds @ rest" and d: "d = c" by auto
      from r(3) Cons d have "if ds = [] then isLineTerminator c else isLineTerminator (last ds)"
        by (auto split: if_splits)
      with cs r(2) have "stateTestFrom (isLineTerminator c) cs"
        using Cons.IH [of "isLineTerminator c"] by blast
      then show ?thesis by simp
    qed
  qed
qed

lemma hasStateLine_iff: "hasStateLine b \<longleftrightarrow> qualifies b"
proof
  assume "hasStateLine b"
  then obtain pre rest where b: "b = pre @ rest" and s: "stateAt rest"
    and l: "if pre = [] then True else isLineTerminator (last pre)"
    unfolding hasStateLine_def stateTestFrom_iff by blast
  from s obtain ws1 ws2 post where "rest = ws1 @ js ''STATE'' @ ws2 @ 0x3A # post"
    "\<forall>c\<in>set ws1. isSpace c" "\<forall>c\<in>set ws2. isSpace c"
    unfolding stateAt_iff by blast
  with b l show "qualifies b"
    unfolding qualifies_def by (intro exI [of _ pre] exI [of _ ws1] exI [of _ ws2] exI [of _ post]) (auto split: if_splits)
next
  assume "qualifies b"
  then obtain pre ws1 ws2 post where b: "b = pre @ ws1 @ js ''STATE'' @ ws2 @ 0x3A # post"
    and l: "pre = [] \<or> isLineTerminator (last pre)"
    and w: "\<forall>c\<in>set ws1. isSpace c" "\<forall>c\<in>set ws2. isSpace c"
    unfolding qualifies_def by blast
  from w have "stateAt (ws1 @ js ''STATE'' @ ws2 @ 0x3A # post)"
    unfolding stateAt_iff by blast
  with b l have "\<exists>p rest. b = p @ rest \<and> stateAt rest \<and>
        (if p = [] then True else isLineTerminator (last p))"
    by (intro exI [of _ pre] exI [of _ "ws1 @ js ''STATE'' @ ws2 @ 0x3A # post"]) auto
  then show "hasStateLine b"
    unfolding hasStateLine_def stateTestFrom_iff .
qed

lemma fencedAt_plainAt: "fencedAt u tag b r \<Longrightarrow> \<forall>c\<in>set tag. isAsciiLetter c \<Longrightarrow> plainAt u b r"
  unfolding plainAt_def by blast

lemma plainAt_fencedAt: "plainAt u b r \<Longrightarrow> \<exists>tag. fencedAt u tag b r"
  unfolding plainAt_def by blast

lemma fencedRegions_codeBlocks:
  "fencedRegions t rs \<Longrightarrow> plainTags rs \<Longrightarrow> map snd rs = codeBlocks t"
proof (induction rule: fencedRegions.induct)
  case (noRegion t)
  then have "\<forall>i b r. \<not> plainAt (drop i t) b r"
    using plainAt_fencedAt by blast
  then have "codeBlockExec t = None" by (simp add: codeBlockExec_None_iff)
  then show ?case by (simp add: codeBlocks.simps [of t])
next
  case (nextRegion i t tag b r rs)
  from nextRegion.prems have tag: "\<forall>c\<in>set tag. isAsciiLetter c" and rs: "plainTags rs"
    by (auto simp: plainTags_def)
  from nextRegion.hyps(1) tag have 1: "plainAt (drop i t) b r" by (rule fencedAt_plainAt)
  from nextRegion.hyps(2) have 2: "\<forall>j<i. \<forall>b' r'. \<not> plainAt (drop j t) b' r'"
    using plainAt_fencedAt by blast
  from 1 2 have "codeBlockExec t = Some (b, r)"
    unfolding codeBlockExec_Some_iff by blast
  with nextRegion.IH [OF rs] show ?case by (simp add: codeBlocks.simps [of t])
qed

lemma fencedRegions_closed:
  "fencedRegions t rs \<Longrightarrow>
     \<forall>(tag, b)\<in>set rs. \<exists>pre post. t = pre @ fence @ tag @ 0x0A # b @ fence @ post"
proof (induction rule: fencedRegions.induct)
  case (noRegion t)
  then show ?case by simp
next
  case (nextRegion i t tag b r rs)
  from nextRegion.hyps(1) have d: "drop i t = fence @ tag @ 0x0A # b @ fence @ r"
    by (simp add: fencedAt_def)
  have t: "t = take i t @ fence @ tag @ 0x0A # b @ fence @ r"
    using d by (metis append_take_drop_id)
  have "\<exists>pre post. t = pre @ fence @ tag' @ 0x0A # b' @ fence @ post"
    if "(tag', b') \<in> set ((tag, b) # rs)" for tag' b'
  proof -
    from that consider "tag' = tag \<and> b' = b" | "(tag', b') \<in> set rs" by auto
    then show ?thesis
    proof cases
      case 1
      with t show ?thesis by blast
    next
      case 2
      with nextRegion.IH obtain pre' post' where
        r: "r = pre' @ fence @ tag' @ 0x0A # b' @ fence @ post'" by fastforce
      have "t = (take i t @ fence @ tag @ 0x0A # b @ fence @ pre') @ fence @ tag' @ 0x0A # b' @ fence @ post'"
        using t r by (metis append.assoc append_Cons)
      then show ?thesis by blast
    qed
  qed
  then show ?case by auto
qed

lemma fencedAt_shorter: "fencedAt u tag b r \<Longrightarrow> length r < length u"
  by (simp add: fencedAt_def)

lemma fencedRegions_exist: "\<exists>rs. fencedRegions t rs"
proof (induction t rule: length_induct)
  case (1 t)
  show ?case
  proof (cases "\<exists>i tag b r. fencedAt (drop i t) tag b r")
    case False
    then have "fencedRegions t []" by (intro noRegion) blast
    then show ?thesis ..
  next
    case True
    define P where "P i \<longleftrightarrow> (\<exists>tag b r. fencedAt (drop i t) tag b r)" for i
    from True have "\<exists>i. P i" by (simp add: P_def)
    then have l: "P (LEAST i. P i)" by (rule LeastI_ex)
    have m: "\<forall>j<(LEAST i. P i). \<not> P j" using not_less_Least by blast
    from l obtain tag b r where f: "fencedAt (drop (LEAST i. P i) t) tag b r"
      unfolding P_def by blast
    from fencedAt_shorter [OF f] have "length r < length t" by simp
    with 1 obtain rs where rs: "fencedRegions r rs" by blast
    from m have "\<forall>j<(LEAST i. P i). \<forall>tag' b' r'. \<not> fencedAt (drop j t) tag' b' r'"
      unfolding P_def by blast
    with f have "fencedRegions t ((tag, b) # rs)" using rs by (rule nextRegion)
    then show ?thesis ..
  qed
qed

lemma fencedAt_backtick: "fencedAt u tag b r \<Longrightarrow> \<exists>w. u = 0x60 # w"
  by (simp add: fencedAt_def fence_def)

lemma no_backtick_no_region:
  assumes "0x60 \<notin> set a"
  shows "\<not> fencedAt (drop j a) tag b r" and "j < length a \<Longrightarrow> \<not> fencedAt (drop j (a @ u)) tag b r"
proof -
  show "\<not> fencedAt (drop j a) tag b r"
  proof
    assume "fencedAt (drop j a) tag b r"
    then obtain w where "drop j a = 0x60 # w" using fencedAt_backtick by blast
    then have "0x60 \<in> set (drop j a)" by simp
    then have "0x60 \<in> set a" by (rule in_set_dropD)
    with assms show False ..
  qed
  show "\<not> fencedAt (drop j (a @ u)) tag b r" if j: "j < length a"
  proof
    assume "fencedAt (drop j (a @ u)) tag b r"
    then obtain w where w: "drop j (a @ u) = 0x60 # w" using fencedAt_backtick by blast
    from j have "drop j (a @ u) = (a ! j) # drop (Suc j) a @ u"
      by (simp add: Cons_nth_drop_Suc)
    with w have "a ! j = 0x60" by simp
    with j assms show False by (metis nth_mem)
  qed
qed

lemma fencedRegions_text: "0x60 \<notin> set a \<Longrightarrow> fencedRegions a []"
  by (intro noRegion) (simp add: no_backtick_no_region(1))

lemma fencedRegions_after_text:
  assumes "0x60 \<notin> set a" and "fencedAt u tag b r" and "fencedRegions r rs"
  shows "fencedRegions (a @ u) ((tag, b) # rs)"
proof -
  have 1: "fencedAt (drop (length a) (a @ u)) tag b r" using assms(2) by simp
  have 2: "\<forall>j<length a. \<forall>tag' b' r'. \<not> fencedAt (drop j (a @ u)) tag' b' r'"
    using no_backtick_no_region(2) [OF assms(1)] by blast
  from 1 2 assms(3) show ?thesis by (rule nextRegion)
qed

lemma fencedAtI:
  assumes "splitAtFence w = Some (b, r)" and "0x0A \<notin> set tag" and "0x60 \<notin> set tag"
  shows "fencedAt (fence @ tag @ 0x0A # w) tag b r"
  using splitAtFence_sound [OF assms(1)] assms(2,3) by (simp add: fencedAt_def)

section \<open>The extractor\<close>

text \<open>
  Claim C1, amended. Read the fenced regions of a reply from the left. When each of them
  has a language tag of ASCII letters only (the empty tag among them), \<open>extractStateYaml\<close>
  returns the trimmed inner text of the last region that qualifies, and nothing when none
  qualifies. Every region of the reading stands in the reply with its closing marker, so a
  fence that is never closed contributes none; and every reply has such a reading. Of a
  reply with a region whose tag holds another character nothing is said.
\<close>

theorem extract_last_qualifying:
  "(\<exists>rs. fencedRegions t rs) \<and>
   (\<forall>rs. fencedRegions t rs \<longrightarrow>
      (\<forall>(tag, b)\<in>set rs. \<exists>pre post. t = pre @ fence @ tag @ 0x0A # b @ fence @ post) \<and>
      (plainTags rs \<longrightarrow> extractStateYaml t = lastQualifying (map snd rs)))"
proof (intro conjI allI impI)
  show "\<exists>rs. fencedRegions t rs"
    by (rule fencedRegions_exist)
next
  fix rs
  assume r: "fencedRegions t rs"
  then show "\<forall>(tag, b)\<in>set rs. \<exists>pre post. t = pre @ fence @ tag @ 0x0A # b @ fence @ post"
    by (rule fencedRegions_closed)
  assume "plainTags rs"
  with r have bs: "map snd rs = codeBlocks t" by (rule fencedRegions_codeBlocks)
  have f: "filter hasStateLine (codeBlocks t) = filter qualifies (codeBlocks t)"
    by (rule filter_cong) (simp_all add: hasStateLine_iff)
  show "extractStateYaml t = lastQualifying (map snd rs)"
    unfolding extractStateYaml_def extractLoop_codeBlocks lastQualifying_def bs f ..
qed

lemma two_blocks_split:
  "splitAtFence (js ''STATE: a\<newline>```\<newline>then\<newline>```yaml\<newline>  STATE : b\<newline>```\<newline>Bye.'') =
     Some (js ''STATE: a\<newline>'', js ''\<newline>then\<newline>```yaml\<newline>  STATE : b\<newline>```\<newline>Bye.'')"
  "splitAtFence (js ''  STATE : b\<newline>```\<newline>Bye.'') = Some (js ''  STATE : b\<newline>'', js ''\<newline>Bye.'')"
  by code_simp+

lemma two_blocks_state:
  "hasStateLine (js ''STATE: a\<newline>'')" "hasStateLine (js ''  STATE : b\<newline>'')"
  "trim (js ''  STATE : b\<newline>'') = js ''STATE : b''"
  by code_simp+

lemma two_blocks_regions:
  "fencedRegions (js ''Here:\<newline>```\<newline>STATE: a\<newline>```\<newline>then\<newline>```yaml\<newline>  STATE : b\<newline>```\<newline>Bye.'')
     [([], js ''STATE: a\<newline>''), (js ''yaml'', js ''  STATE : b\<newline>'')]"
proof -
  have 3: "fencedRegions (js ''\<newline>Bye.'') []"
    by (rule fencedRegions_text) (simp add: js_def)
  have "fencedAt (fence @ js ''yaml'' @ 0x0A # js ''  STATE : b\<newline>```\<newline>Bye.'') (js ''yaml'')
      (js ''  STATE : b\<newline>'') (js ''\<newline>Bye.'')"
    using two_blocks_split(2) by (rule fencedAtI) (simp_all add: js_def)
  with _ have "fencedRegions (js ''\<newline>then\<newline>'' @ fence @ js ''yaml'' @ 0x0A # js ''  STATE : b\<newline>```\<newline>Bye.'')
      [(js ''yaml'', js ''  STATE : b\<newline>'')]"
    using 3 by (rule fencedRegions_after_text) (simp add: js_def)
  then have 2: "fencedRegions (js ''\<newline>then\<newline>```yaml\<newline>  STATE : b\<newline>```\<newline>Bye.'')
      [(js ''yaml'', js ''  STATE : b\<newline>'')]"
    by (simp add: js_def fence_def)
  have "fencedAt (fence @ [] @ 0x0A # js ''STATE: a\<newline>```\<newline>then\<newline>```yaml\<newline>  STATE : b\<newline>```\<newline>Bye.'') []
      (js ''STATE: a\<newline>'') (js ''\<newline>then\<newline>```yaml\<newline>  STATE : b\<newline>```\<newline>Bye.'')"
    using two_blocks_split(1) by (rule fencedAtI) simp_all
  with _ have "fencedRegions (js ''Here:\<newline>'' @ fence @ [] @ 0x0A #
        js ''STATE: a\<newline>```\<newline>then\<newline>```yaml\<newline>  STATE : b\<newline>```\<newline>Bye.'')
      [([], js ''STATE: a\<newline>''), (js ''yaml'', js ''  STATE : b\<newline>'')]"
    using 2 by (rule fencedRegions_after_text) (simp add: js_def)
  then show ?thesis
    by (simp add: js_def fence_def)
qed

theorem extract_last_qualifying_witness:
  "fencedRegions (js ''Here:\<newline>```\<newline>STATE: a\<newline>```\<newline>then\<newline>```yaml\<newline>  STATE : b\<newline>```\<newline>Bye.'')
     [([], js ''STATE: a\<newline>''), (js ''yaml'', js ''  STATE : b\<newline>'')] \<and>
   plainTags [([], js ''STATE: a\<newline>''), (js ''yaml'', js ''  STATE : b\<newline>'')] \<and>
   qualifies (js ''STATE: a\<newline>'') \<and> qualifies (js ''  STATE : b\<newline>'') \<and>
   extractStateYaml (js ''Here:\<newline>```\<newline>STATE: a\<newline>```\<newline>then\<newline>```yaml\<newline>  STATE : b\<newline>```\<newline>Bye.'') =
     Some (js ''STATE : b'')"
proof -
  let ?t = "js ''Here:\<newline>```\<newline>STATE: a\<newline>```\<newline>then\<newline>```yaml\<newline>  STATE : b\<newline>```\<newline>Bye.''"
  let ?rs = "[([], js ''STATE: a\<newline>''), (js ''yaml'', js ''  STATE : b\<newline>'')]"
  have p: "plainTags ?rs"
    by (simp add: plainTags_def js_def isAsciiLetter_def)
  have q: "qualifies (js ''STATE: a\<newline>'')" "qualifies (js ''  STATE : b\<newline>'')"
    using two_blocks_state(1,2) unfolding hasStateLine_iff .
  have l: "lastQualifying (map snd ?rs) = Some (js ''STATE : b'')"
    unfolding lastQualifying_def using q by (simp add: two_blocks_state(3))
  from extract_last_qualifying [of ?t] two_blocks_regions p
  have "extractStateYaml ?t = lastQualifying (map snd ?rs)"
    by blast
  with two_blocks_regions p q l show ?thesis by simp
qed

text \<open>
  Without the condition on the tags the statement fails. The reply below is one fenced
  region, closed, tagged \<open>c++\<close>, with a \<open>STATE:\<close> line: it qualifies and is the last one
  that does, and \<open>extractStateYaml\<close> returns nothing.
\<close>

lemma tagged_block_split:
  "splitAtFence (js ''STATE: x\<newline>```'') = Some (js ''STATE: x\<newline>'', [])"
  "hasStateLine (js ''STATE: x\<newline>'')"
  "trim (js ''STATE: x\<newline>'') = js ''STATE: x''"
  "extractStateYaml (js ''```c++\<newline>STATE: x\<newline>```'') = None"
  by code_simp+

theorem other_tag_counterexample:
  "fencedRegions (js ''```c++\<newline>STATE: x\<newline>```'') [(js ''c++'', js ''STATE: x\<newline>'')] \<and>
   qualifies (js ''STATE: x\<newline>'') \<and>
   lastQualifying (map snd [(js ''c++'', js ''STATE: x\<newline>'')]) = Some (js ''STATE: x'') \<and>
   extractStateYaml (js ''```c++\<newline>STATE: x\<newline>```'') = None"
proof -
  have 0: "fencedRegions [] []"
    by (rule fencedRegions_text) simp
  have "fencedAt (fence @ js ''c++'' @ 0x0A # js ''STATE: x\<newline>```'') (js ''c++'')
      (js ''STATE: x\<newline>'') []"
    using tagged_block_split(1) by (rule fencedAtI) (simp_all add: js_def)
  with _ have "fencedRegions ([] @ fence @ js ''c++'' @ 0x0A # js ''STATE: x\<newline>```'')
      [(js ''c++'', js ''STATE: x\<newline>'')]"
    using 0 by (rule fencedRegions_after_text) simp
  then have r: "fencedRegions (js ''```c++\<newline>STATE: x\<newline>```'') [(js ''c++'', js ''STATE: x\<newline>'')]"
    by (simp add: js_def fence_def)
  have q: "qualifies (js ''STATE: x\<newline>'')"
    using tagged_block_split(2) unfolding hasStateLine_iff .
  have l: "lastQualifying (map snd [(js ''c++'', js ''STATE: x\<newline>'')]) = Some (js ''STATE: x'')"
    unfolding lastQualifying_def using q by (simp add: tagged_block_split(3))
  from r q l tagged_block_split(4) show ?thesis by simp
qed

text \<open>
  An opening marker that the regular expression does not accept is passed over, and the
  closing marker of its region is then taken for an opening one. In the first reply below
  the text between two regions is returned; in the second the line ends are \<open>CR LF\<close>, and
  in the third the tag holds a digit. A fence that is never closed gives nothing.
\<close>

lemma unrecognised_examples:
  "extractStateYaml (js ''```c++\<newline>int x;\<newline>```\<newline>STATE: leaked\<newline>```yaml\<newline>STATE: real\<newline>```'') =
     Some (js ''STATE: leaked'')"
  "extractStateYaml (js ''```yaml'' @ [0x0D, 0x0A] @ js ''STATE: x'' @ [0x0D, 0x0A] @ js ''```'') = None"
  "extractStateYaml (js ''```python3\<newline>STATE: x\<newline>```'') = None"
  by code_simp+

lemma unclosed_example:
  "extractStateYaml (js ''```yaml\<newline>STATE: x\<newline>'') = None"
  by code_simp

section \<open>Facts about the link codec\<close>

lemma cu_unat: "k < 65536 \<Longrightarrow> unat (of_nat k :: jschar) = k"
  by (simp add: unat_of_nat)

lemma cu_less: "unat (c :: jschar) < 65536"
  using unsigned_less [of c, where ?'a = nat] by simp

lemma cu_eqI: "unat (c :: jschar) = unat d \<Longrightarrow> c = d"
  by (simp add: word_unat_eq_iff)

lemma cu_le: "(c :: jschar) \<le> d \<longleftrightarrow> unat c \<le> unat d"
  by (rule word_le_nat_alt)

lemma cu_lt: "(c :: jschar) < d \<longleftrightarrow> unat c < unat d"
  by (rule word_less_nat_alt)

lemma hexValue_hexDigit: "n < 16 \<Longrightarrow> hexValue (hexDigit n) = Some n"
  by (auto simp: hexValue_def hexDigit_def cu_le cu_unat)

lemma hex_split:
  fixes x :: nat
  shows "4096 * (x div 4096) + 256 * (x div 256 mod 16) + 16 * (x div 16 mod 16) + x mod 16 = x"
proof -
  have a: "x div 4096 = x div 256 div 16" and b: "x div 256 = x div 16 div 16"
    by (simp_all add: div_mult2_eq [symmetric])
  have 1: "16 * (x div 16 div 16 div 16) + x div 16 div 16 mod 16 = x div 16 div 16"
    by (rule mult_div_mod_eq)
  have 2: "16 * (x div 16 div 16) + x div 16 mod 16 = x div 16"
    by (rule mult_div_mod_eq)
  have 3: "16 * (x div 16) + x mod 16 = x"
    by (rule mult_div_mod_eq)
  show ?thesis
    unfolding a b using 1 2 3 by linarith
qed

lemma hex4_escape:
  "hex4 (hexDigit (unat c div 4096) # hexDigit (unat c div 256 mod 16) #
         hexDigit (unat c div 16 mod 16) # hexDigit (unat c mod 16) # r) = Some c"
proof -
  have "unat c div 4096 < 16"
    using cu_less [of c] by simp
  then show ?thesis
    by (simp add: hex4_def hexValue_hexDigit hex_split)
qed

lemma parse_plain:
  "c \<noteq> 0x22 \<Longrightarrow> c \<noteq> 0x5C \<Longrightarrow> \<not> c < 0x20 \<Longrightarrow>
     parseStringBody (c # q) = map_option (\<lambda>(s, r). (c # s, r)) (parseStringBody q)"
  by simp

lemma parse_quoteChar:
  "parseStringBody (quoteChar c @ q) = map_option (\<lambda>(s, r). (c # s, r)) (parseStringBody q)"
proof (cases "c = 0x08 \<or> c = 0x09 \<or> c = 0x0A \<or> c = 0x0C \<or> c = 0x0D \<or> c = 0x22 \<or> c = 0x5C")
  case True
  then show ?thesis
    by (auto simp: quoteChar_def simpleEscape_def)
next
  case False
  show ?thesis
  proof (cases "c < 0x20 \<or> isHighSurrogate c \<or> isLowSurrogate c")
    case True
    with False have "quoteChar c = unicodeEscape c"
      by (simp add: quoteChar_def)
    then show ?thesis
      by (simp add: unicodeEscape_def hex4_escape)
  next
    case n: False
    with False have "quoteChar c = [c]"
      by (simp add: quoteChar_def)
    with False n show ?thesis
      by (simp add: parse_plain)
  qed
qed

lemma surrogate_plain:
  assumes "isHighSurrogate c \<or> isLowSurrogate c"
  shows "c \<noteq> 0x22" "c \<noteq> 0x5C" "\<not> c < 0x20"
  using assms by (auto simp: isHighSurrogate_def isLowSurrogate_def cu_le cu_lt)

lemma parse_quoteBody:
  "parseStringBody (quoteBody s @ 0x22 # r) = Some (s, r)"
proof (induction s rule: quoteBody.induct)
  case 1
  then show ?case by simp
next
  case (2 c)
  then show ?case by (simp add: parse_quoteChar)
next
  case (3 c d cs)
  show ?case
  proof (cases "isHighSurrogate c \<and> isLowSurrogate d")
    case True
    then have q: "quoteBody (c # d # cs) = c # d # quoteBody cs" by simp
    from "3.IH"(1) [OF True] have ih: "parseStringBody (quoteBody cs @ 0x22 # r) = Some (cs, r)" .
    from True have pd: "d \<noteq> 0x22" "d \<noteq> 0x5C" "\<not> d < 0x20"
      and pc: "c \<noteq> 0x22" "c \<noteq> 0x5C" "\<not> c < 0x20"
      using surrogate_plain [of d] surrogate_plain [of c] by auto
    have 1: "parseStringBody (d # quoteBody cs @ 0x22 # r) = Some (d # cs, r)"
      unfolding parse_plain [OF pd] ih by simp
    have 2: "parseStringBody (c # d # quoteBody cs @ 0x22 # r) = Some (c # d # cs, r)"
      unfolding parse_plain [OF pc] 1 by simp
    show ?thesis unfolding q using 2 by simp
  next
    case False
    then have q: "quoteBody (c # d # cs) = quoteChar c @ quoteBody (d # cs)" by auto
    from "3.IH"(2) [OF False] have ih: "parseStringBody (quoteBody (d # cs) @ 0x22 # r) = Some (d # cs, r)" .
    have "parseStringBody (quoteChar c @ quoteBody (d # cs) @ 0x22 # r) = Some (c # d # cs, r)"
      unfolding parse_quoteChar ih by simp
    then show ?thesis unfolding q by simp
  qed
qed


lemma parse_member:
  assumes "quoteBody key = key" and "x = 0x2C \<or> x = 0x7D"
  shows "parseMembers (Suc (Suc n)) (0x22 # key @ 0x22 # 0x3A # 0x22 # quoteBody v @ 0x22 # x # rest) =
     (if x = 0x2C then map_option (\<lambda>(ms, r). ((key, JString v) # ms, r)) (parseMembers (Suc n) rest)
      else Some ([(key, JString v)], rest))"
proof -
  have k: "parseStringBody (key @ 0x22 # 0x3A # 0x22 # quoteBody v @ 0x22 # x # rest) =
      Some (key, 0x3A # 0x22 # quoteBody v @ 0x22 # x # rest)"
    using parse_quoteBody [of key "0x3A # 0x22 # quoteBody v @ 0x22 # x # rest"]
    by (simp add: assms(1))
  have v: "parseValue (Suc n) (0x22 # quoteBody v @ 0x22 # x # rest) = Some (JString v, x # rest)"
    by (subst parseValue.simps)
      (simp add: isJsonSpace_def parse_quoteBody del: parseValue.simps parseMembers.simps)
  show ?thesis
    using assms(2)
    by (subst parseMembers.simps)
      (auto simp: isJsonSpace_def k v simp del: parseValue.simps parseMembers.simps)
qed

lemma plain_keys:
  "quoteBody (js ''baseUrl'') = js ''baseUrl''"
  "quoteBody (js ''model'') = js ''model''"
  "quoteBody (js ''apiKey'') = js ''apiKey''"
  by (simp_all add: js_def quoteChar_def isHighSurrogate_def isLowSurrogate_def)

lemma stringifyConfig_shape:
  "stringifyConfig cfg =
     0x7B # 0x22 # js ''baseUrl'' @ 0x22 # 0x3A # 0x22 # quoteBody (baseUrl cfg) @ 0x22 # 0x2C #
     0x22 # js ''model'' @ 0x22 # 0x3A # 0x22 # quoteBody (model cfg) @ 0x22 # 0x2C #
     0x22 # js ''apiKey'' @ 0x22 # 0x3A # 0x22 # quoteBody (apiKey cfg) @ 0x22 # 0x7D # []"
  by (simp add: stringifyConfig_def quoteJSONString_def js_def)

lemma parse_config_text:
  "parseValue (Suc (Suc (Suc (Suc (Suc n))))) (stringifyConfig cfg) =
     Some (JObject [(js ''baseUrl'', JString (baseUrl cfg)), (js ''model'', JString (model cfg)),
                    (js ''apiKey'', JString (apiKey cfg))], [])"
proof -
  let ?m3 = "0x22 # js ''apiKey'' @ 0x22 # 0x3A # 0x22 # quoteBody (apiKey cfg) @ 0x22 # 0x7D # []"
  let ?m2 = "0x22 # js ''model'' @ 0x22 # 0x3A # 0x22 # quoteBody (model cfg) @ 0x22 # 0x2C # ?m3"
  let ?m1 = "0x22 # js ''baseUrl'' @ 0x22 # 0x3A # 0x22 # quoteBody (baseUrl cfg) @ 0x22 # 0x2C # ?m2"
  have 3: "parseMembers (Suc (Suc n)) ?m3 = Some ([(js ''apiKey'', JString (apiKey cfg))], [])"
    using parse_member [OF plain_keys(3), of "0x7D" n "apiKey cfg" "[]"]
    by (simp del: parseValue.simps parseMembers.simps)
  have 2: "parseMembers (Suc (Suc (Suc n))) ?m2 =
      Some ([(js ''model'', JString (model cfg)), (js ''apiKey'', JString (apiKey cfg))], [])"
    using parse_member [OF plain_keys(2), of "0x2C" "Suc n" "model cfg" ?m3]
    by (simp add: 3 del: parseValue.simps parseMembers.simps)
  have 1: "parseMembers (Suc (Suc (Suc (Suc n)))) ?m1 =
      Some ([(js ''baseUrl'', JString (baseUrl cfg)), (js ''model'', JString (model cfg)),
             (js ''apiKey'', JString (apiKey cfg))], [])"
    using parse_member [OF plain_keys(1), of "0x2C" "Suc (Suc n)" "baseUrl cfg" ?m2]
    by (simp add: 2 del: parseValue.simps parseMembers.simps)
  have "parseValue (Suc (Suc (Suc (Suc (Suc n))))) (0x7B # ?m1) =
      Some (JObject [(js ''baseUrl'', JString (baseUrl cfg)), (js ''model'', JString (model cfg)),
                    (js ''apiKey'', JString (apiKey cfg))], [])"
    by (subst parseValue.simps)
      (simp add: isJsonSpace_def 1 del: parseValue.simps parseMembers.simps)
  then show ?thesis
    unfolding stringifyConfig_shape .
qed

lemma jsonParse_stringify:
  "jsonParse (stringifyConfig cfg) =
     Some (JObject [(js ''baseUrl'', JString (baseUrl cfg)), (js ''model'', JString (model cfg)),
                    (js ''apiKey'', JString (apiKey cfg))])"
proof -
  have "4 \<le> length (stringifyConfig cfg)"
    by (simp add: stringifyConfig_shape)
  then obtain n where n: "length (stringifyConfig cfg) = Suc (Suc (Suc (Suc n)))"
    by (metis Suc_le_D numeral_eq_Suc pred_numeral_simps(2,3) semiring_norm(26,27) le_Suc_ex add_Suc add_Suc_right add_0 eval_nat_numeral(2) One_nat_def)
  show ?thesis
    unfolding jsonParse_def n parse_config_text by simp
qed

lemma codeUnits_unit: "codeUnits (unat (c :: jschar)) = [c]"
  using cu_less [of c] by (simp add: codeUnits_def)

lemma pair_range:
  assumes "isHighSurrogate c" and "isLowSurrogate d"
  shows "0x10000 \<le> pairCodePoint c d" and "pairCodePoint c d \<le> 0x10FFFF"
  using assms
  by (auto simp: pairCodePoint_def isHighSurrogate_def isLowSurrogate_def cu_le)

lemma codeUnits_pair:
  assumes "isHighSurrogate c" and "isLowSurrogate d"
  shows "codeUnits (pairCodePoint c d) = [c, d]"
proof -
  define h where "h = unat c - 0xD800"
  define l where "l = unat d - 0xDC00"
  have h: "unat c = 0xD800 + h" "h < 0x400"
    using assms(1) by (auto simp: h_def isHighSurrogate_def cu_le)
  have l: "unat d = 0xDC00 + l" "l < 0x400"
    using assms(2) by (auto simp: l_def isLowSurrogate_def cu_le)
  have p: "pairCodePoint c d = 0x10000 + (h * 0x400 + l)"
    by (simp add: pairCodePoint_def h_def l_def)
  have 1: "(h * 0x400 + l) div 0x400 = h" "(h * 0x400 + l) mod 0x400 = l"
    using l(2) by simp_all
  have "codeUnits (pairCodePoint c d) = [of_nat (unat c), of_nat (unat d)]"
    unfolding p codeUnits_def h(1) l(1) using 1 by simp
  then show ?thesis by simp
qed

lemma decode_1:
  assumes "cp < 0x80"
  shows "utf8Decode (utf8Bytes cp @ bs) = map_option ((@) (codeUnits cp)) (utf8Decode bs)"
proof -
  have u: "unat (of_nat cp :: jschar) = cp"
    using assms by (simp add: cu_unat)
  have "(of_nat cp :: jschar) < 0x80"
    using assms by (simp add: cu_lt u)
  moreover have "(#) (of_nat cp :: jschar) = (@) [of_nat cp]" by auto
  ultimately show ?thesis
    using assms by (simp add: utf8Bytes_def codeUnits_def)
qed

lemma decode_2:
  assumes "0x80 \<le> cp" and "cp < 0x800"
  shows "utf8Decode (utf8Bytes cp @ bs) = map_option ((@) (codeUnits cp)) (utf8Decode bs)"
proof -
  define b where "b = (of_nat (0xC0 + cp div 64) :: jschar)"
  define b1 where "b1 = (of_nat (0x80 + cp mod 64) :: jschar)"
  have ub: "unat b = 0xC0 + cp div 64"
    unfolding b_def using assms by (intro cu_unat) simp
  have ub1: "unat b1 = 0x80 + cp mod 64"
    unfolding b1_def by (intro cu_unat) simp
  have r: "2 \<le> cp div 64" "cp div 64 < 32"
    using assms by simp_all
  have c: "\<not> b < 0x80" "\<not> 0xFF < b" "\<not> b < 0xC0" "b < 0xE0" "isContinuation b1"
    using r by (simp_all add: cu_lt cu_le ub ub1 isContinuation_def)
  have v: "(unat b - 0xC0) * 64 + (unat b1 - 0x80) = cp"
    by (simp add: ub ub1)
  have e: "utf8Bytes cp = [b, b1]"
    using assms by (simp add: utf8Bytes_def b_def b1_def)
  show ?thesis
    unfolding e using c assms(1) by (simp add: v)
qed

lemma decode_3:
  assumes "0x800 \<le> cp" and "cp < 0x10000" and "\<not> (0xD800 \<le> cp \<and> cp \<le> 0xDFFF)"
  shows "utf8Decode (utf8Bytes cp @ bs) = map_option ((@) (codeUnits cp)) (utf8Decode bs)"
proof -
  define b where "b = (of_nat (0xE0 + cp div 4096) :: jschar)"
  define b1 where "b1 = (of_nat (0x80 + cp div 64 mod 64) :: jschar)"
  define b2 where "b2 = (of_nat (0x80 + cp mod 64) :: jschar)"
  have r: "cp div 4096 < 16"
    using assms by simp
  have ub: "unat b = 0xE0 + cp div 4096"
    unfolding b_def using r by (intro cu_unat) simp
  have ub1: "unat b1 = 0x80 + cp div 64 mod 64"
    unfolding b1_def by (intro cu_unat) simp
  have ub2: "unat b2 = 0x80 + cp mod 64"
    unfolding b2_def by (intro cu_unat) simp
  have c: "\<not> b < 0x80" "\<not> 0xFF < b" "\<not> b < 0xC0" "\<not> b < 0xE0" "b < 0xF0"
    "isContinuation b1" "isContinuation b2"
    using r by (simp_all add: cu_lt cu_le ub ub1 ub2 isContinuation_def)
  have d: "cp div 4096 = cp div 64 div 64"
    by (simp add: div_mult2_eq [symmetric])
  have 1: "64 * (cp div 64 div 64) + cp div 64 mod 64 = cp div 64"
    by (rule mult_div_mod_eq)
  have 2: "64 * (cp div 64) + cp mod 64 = cp"
    by (rule mult_div_mod_eq)
  have g: "cp div 64 div 64 * 4096 + cp div 64 mod 64 * 64 + cp mod 64 = cp"
    using 1 2 by linarith
  have v: "(unat b - 0xE0) * 4096 + (unat b1 - 0x80) * 64 + (unat b2 - 0x80) = cp"
    unfolding ub ub1 ub2 d by (simp add: g)
  have e: "utf8Bytes cp = [b, b1, b2]"
    using assms by (simp add: utf8Bytes_def b_def b1_def b2_def)
  show ?thesis
    unfolding e using c assms by (simp add: v)
qed

lemma decode_4:
  assumes "0x10000 \<le> cp" and "cp \<le> 0x10FFFF"
  shows "utf8Decode (utf8Bytes cp @ bs) = map_option ((@) (codeUnits cp)) (utf8Decode bs)"
proof -
  define b where "b = (of_nat (0xF0 + cp div 262144) :: jschar)"
  define b1 where "b1 = (of_nat (0x80 + cp div 4096 mod 64) :: jschar)"
  define b2 where "b2 = (of_nat (0x80 + cp div 64 mod 64) :: jschar)"
  define b3 where "b3 = (of_nat (0x80 + cp mod 64) :: jschar)"
  have r: "cp div 262144 < 5"
    using assms by simp
  have ub: "unat b = 0xF0 + cp div 262144"
    unfolding b_def using r by (intro cu_unat) simp
  have ub1: "unat b1 = 0x80 + cp div 4096 mod 64"
    unfolding b1_def by (intro cu_unat) simp
  have ub2: "unat b2 = 0x80 + cp div 64 mod 64"
    unfolding b2_def by (intro cu_unat) simp
  have ub3: "unat b3 = 0x80 + cp mod 64"
    unfolding b3_def by (intro cu_unat) simp
  have c: "\<not> b < 0x80" "\<not> 0xFF < b" "\<not> b < 0xC0" "\<not> b < 0xE0" "\<not> b < 0xF0" "b < 0xF8"
    "isContinuation b1" "isContinuation b2" "isContinuation b3"
    using r by (simp_all add: cu_lt cu_le ub ub1 ub2 ub3 isContinuation_def)
  have d: "cp div 262144 = cp div 64 div 64 div 64" "cp div 4096 = cp div 64 div 64"
    by (simp_all add: div_mult2_eq [symmetric])
  have 0: "64 * (cp div 64 div 64 div 64) + cp div 64 div 64 mod 64 = cp div 64 div 64"
    by (rule mult_div_mod_eq)
  have 1: "64 * (cp div 64 div 64) + cp div 64 mod 64 = cp div 64"
    by (rule mult_div_mod_eq)
  have 2: "64 * (cp div 64) + cp mod 64 = cp"
    by (rule mult_div_mod_eq)
  have g: "cp div 64 div 64 div 64 * 262144 + cp div 64 div 64 mod 64 * 4096 +
      cp div 64 mod 64 * 64 + cp mod 64 = cp"
    using 0 1 2 by linarith
  have v: "(unat b - 0xF0) * 262144 + (unat b1 - 0x80) * 4096 + (unat b2 - 0x80) * 64 +
      (unat b3 - 0x80) = cp"
    unfolding ub ub1 ub2 ub3 d by (simp add: g)
  have e: "utf8Bytes cp = [b, b1, b2, b3]"
    using assms by (simp add: utf8Bytes_def b_def b1_def b2_def b3_def)
  show ?thesis
    unfolding e using c assms by (simp add: v)
qed

lemma decode_bytes:
  assumes "cp \<le> 0x10FFFF" and "\<not> (0xD800 \<le> cp \<and> cp \<le> 0xDFFF)"
  shows "utf8Decode (utf8Bytes cp @ bs) = map_option ((@) (codeUnits cp)) (utf8Decode bs)"
proof -
  consider "cp < 0x80" | "0x80 \<le> cp" "cp < 0x800" | "0x800 \<le> cp" "cp < 0x10000"
    | "0x10000 \<le> cp" by linarith
  then show ?thesis
  proof cases
    case 1
    then show ?thesis by (rule decode_1)
  next
    case 2
    then show ?thesis by (rule decode_2)
  next
    case 3
    then show ?thesis using assms(2) by (rule decode_3)
  next
    case 4
    then show ?thesis using assms(1) by (rule decode_4)
  qed
qed


lemma unit_codepoint:
  assumes "\<not> isHighSurrogate c" and "\<not> isLowSurrogate c"
  shows "unat c \<le> 0x10FFFF" and "\<not> (0xD800 \<le> unat c \<and> unat c \<le> 0xDFFF)"
  using assms cu_less [of c]
  by (auto simp: isHighSurrogate_def isLowSurrogate_def cu_le)

lemma decode_unit:
  assumes "\<not> isHighSurrogate c" and "\<not> isLowSurrogate c"
  shows "utf8Decode (utf8Bytes (unat c) @ bs) = map_option ((#) c) (utf8Decode bs)"
proof -
  have "(@) [c] = (#) c" by auto
  with decode_bytes [OF unit_codepoint [OF assms], of bs] show ?thesis
    by (simp add: codeUnits_unit)
qed

lemma decode_pair:
  assumes "isHighSurrogate c" and "isLowSurrogate d"
  shows "utf8Decode (utf8Bytes (pairCodePoint c d) @ bs) =
     map_option (\<lambda>s. c # d # s) (utf8Decode bs)"
proof -
  have "(@) [c, d] = (\<lambda>s. c # d # s)" by auto
  moreover have "\<not> (0xD800 \<le> pairCodePoint c d \<and> pairCodePoint c d \<le> 0xDFFF)"
    using pair_range(1) [OF assms] by simp
  ultimately show ?thesis
    using decode_bytes [OF pair_range(2) [OF assms], of bs]
    by (simp add: codeUnits_pair [OF assms])
qed

lemma utf8_roundtrip: "utf8Encode s = Some bs \<Longrightarrow> utf8Decode bs = Some s"
proof (induction s arbitrary: bs rule: utf8Encode.induct)
  case 1
  then show ?case by simp
next
  case (2 c)
  then have n: "\<not> isHighSurrogate c" "\<not> isLowSurrogate c" and b: "bs = utf8Bytes (unat c)"
    by (auto split: if_splits)
  from decode_unit [OF n, of "[]"] show ?case by (simp add: b)
next
  case (3 c d cs)
  show ?case
  proof (cases "isHighSurrogate c")
    case True
    with "3.prems" have l: "isLowSurrogate d" by (auto split: if_splits)
    with True "3.prems" obtain r where r: "utf8Encode cs = Some r"
      and b: "bs = utf8Bytes (pairCodePoint c d) @ r" by auto
    from "3.IH"(1) [OF True l r] have "utf8Decode r = Some cs" .
    with decode_pair [OF True l, of r] show ?thesis by (simp add: b)
  next
    case False
    with "3.prems" have l: "\<not> isLowSurrogate c" by (auto split: if_splits)
    with False "3.prems" obtain r where r: "utf8Encode (d # cs) = Some r"
      and b: "bs = utf8Bytes (unat c) @ r" by auto
    from "3.IH"(2) [OF False l r] have "utf8Decode r = Some (d # cs)" .
    with decode_unit [OF False l, of r] show ?thesis by (simp add: b)
  qed
qed

lemma byte_bound: "k \<le> 0xFF \<Longrightarrow> unat (of_nat k :: jschar) \<le> 0xFF"
  by (simp add: cu_unat)

lemma utf8Bytes_bound: "cp \<le> 0x10FFFF \<Longrightarrow> \<forall>b\<in>set (utf8Bytes cp). unat b \<le> 0xFF"
proof -
  assume a: "cp \<le> 0x10FFFF"
  consider "cp < 0x80" | "0x80 \<le> cp" "cp < 0x800" | "0x800 \<le> cp" "cp < 0x10000"
    | "0x10000 \<le> cp" by linarith
  then show ?thesis
  proof cases
    case 1
    then have "utf8Bytes cp = [of_nat cp]" by (simp add: utf8Bytes_def)
    moreover have "unat (of_nat cp :: jschar) \<le> 0xFF"
      using 1 by (intro byte_bound) simp
    ultimately show ?thesis by simp
  next
    case 2
    then have "utf8Bytes cp = [of_nat (0xC0 + cp div 64), of_nat (0x80 + cp mod 64)]"
      by (simp add: utf8Bytes_def)
    moreover have "unat (of_nat (0xC0 + cp div 64) :: jschar) \<le> 0xFF"
      using 2 by (intro byte_bound) simp
    moreover have "unat (of_nat (0x80 + cp mod 64) :: jschar) \<le> 0xFF"
      by (intro byte_bound) simp
    ultimately show ?thesis by (simp del: of_nat_add of_nat_numeral)
  next
    case 3
    then have "utf8Bytes cp = [of_nat (0xE0 + cp div 4096), of_nat (0x80 + cp div 64 mod 64),
        of_nat (0x80 + cp mod 64)]"
      by (simp add: utf8Bytes_def)
    moreover have "unat (of_nat (0xE0 + cp div 4096) :: jschar) \<le> 0xFF"
      using 3 by (intro byte_bound) simp
    moreover have "unat (of_nat (0x80 + cp div 64 mod 64) :: jschar) \<le> 0xFF"
      by (intro byte_bound) simp
    moreover have "unat (of_nat (0x80 + cp mod 64) :: jschar) \<le> 0xFF"
      by (intro byte_bound) simp
    ultimately show ?thesis by (simp del: of_nat_add of_nat_numeral)
  next
    case 4
    then have "utf8Bytes cp = [of_nat (0xF0 + cp div 262144), of_nat (0x80 + cp div 4096 mod 64),
        of_nat (0x80 + cp div 64 mod 64), of_nat (0x80 + cp mod 64)]"
      by (simp add: utf8Bytes_def)
    moreover have "unat (of_nat (0xF0 + cp div 262144) :: jschar) \<le> 0xFF"
      using a by (intro byte_bound) simp
    moreover have "unat (of_nat (0x80 + cp div 4096 mod 64) :: jschar) \<le> 0xFF"
      by (intro byte_bound) simp
    moreover have "unat (of_nat (0x80 + cp div 64 mod 64) :: jschar) \<le> 0xFF"
      by (intro byte_bound) simp
    moreover have "unat (of_nat (0x80 + cp mod 64) :: jschar) \<le> 0xFF"
      by (intro byte_bound) simp
    ultimately show ?thesis by (simp del: of_nat_add of_nat_numeral)
  qed
qed

lemma utf8Bytes_nonempty: "utf8Bytes cp \<noteq> []"
  by (simp add: utf8Bytes_def)

lemma utf8Encode_bound: "utf8Encode s = Some bs \<Longrightarrow> \<forall>b\<in>set bs. unat b \<le> 0xFF"
proof (induction s arbitrary: bs rule: utf8Encode.induct)
  case 1
  then show ?case by simp
next
  case (2 c)
  then have b: "bs = utf8Bytes (unat c)" by (auto split: if_splits)
  have "unat c \<le> 0x10FFFF" using cu_less [of c] by simp
  from utf8Bytes_bound [OF this] show ?case by (simp add: b)
next
  case (3 c d cs)
  show ?case
  proof (cases "isHighSurrogate c")
    case True
    with "3.prems" have l: "isLowSurrogate d" by (auto split: if_splits)
    with True "3.prems" obtain r where r: "utf8Encode cs = Some r"
      and b: "bs = utf8Bytes (pairCodePoint c d) @ r" by auto
    from "3.IH"(1) [OF True l r] utf8Bytes_bound [OF pair_range(2) [OF True l]]
    show ?thesis by (auto simp: b)
  next
    case False
    with "3.prems" have l: "\<not> isLowSurrogate c" by (auto split: if_splits)
    with False "3.prems" obtain r where r: "utf8Encode (d # cs) = Some r"
      and b: "bs = utf8Bytes (unat c) @ r" by auto
    have "unat c \<le> 0x10FFFF" using cu_less [of c] by simp
    from "3.IH"(2) [OF False l r] utf8Bytes_bound [OF this]
    show ?thesis by (auto simp: b)
  qed
qed

lemma utf8Encode_nonempty: "utf8Encode s = Some bs \<Longrightarrow> s \<noteq> [] \<Longrightarrow> bs \<noteq> []"
  by (cases s rule: utf8Encode.cases) (auto simp: utf8Bytes_nonempty split: if_splits)

lemma utf8Encode_append:
  "utf8Encode a = Some x \<Longrightarrow> utf8Encode b = Some y \<Longrightarrow> utf8Encode (a @ b) = Some (x @ y)"
proof (induction a arbitrary: x rule: utf8Encode.induct)
  case 1
  then show ?case by simp
next
  case (2 c)
  then have n: "\<not> isHighSurrogate c" "\<not> isLowSurrogate c" and x: "x = utf8Bytes (unat c)"
    by (auto split: if_splits)
  show ?case
  proof (cases b)
    case Nil
    with 2 show ?thesis by simp
  next
    case (Cons d ds)
    with 2 n x show ?thesis by simp
  qed
next
  case (3 c d cs)
  show ?case
  proof (cases "isHighSurrogate c")
    case True
    with "3.prems" have l: "isLowSurrogate d" by (auto split: if_splits)
    with True "3.prems" obtain r where r: "utf8Encode cs = Some r"
      and b: "x = utf8Bytes (pairCodePoint c d) @ r" by auto
    from "3.IH"(1) [OF True l r "3.prems"(2)] True l show ?thesis by (simp add: b)
  next
    case False
    with "3.prems" have l: "\<not> isLowSurrogate c" by (auto split: if_splits)
    with False "3.prems" obtain r where r: "utf8Encode (d # cs) = Some r"
      and b: "x = utf8Bytes (unat c) @ r" by auto
    from "3.IH"(2) [OF False l r "3.prems"(2)] False l show ?thesis by (simp add: b)
  qed
qed

lemma encodable_append: "encodable a \<Longrightarrow> encodable b \<Longrightarrow> encodable (a @ b)"
  unfolding encodable_def using utf8Encode_append by blast

lemma encodable_Nil: "encodable []"
  by (simp add: encodable_def)

lemma not_surrogate_ascii:
  "c < 0x80 \<Longrightarrow> \<not> isHighSurrogate c \<and> \<not> isLowSurrogate c"
  by (auto simp: isHighSurrogate_def isLowSurrogate_def cu_le cu_lt)

lemma encodable_unit: "\<not> isHighSurrogate c \<Longrightarrow> \<not> isLowSurrogate c \<Longrightarrow> encodable [c]"
  by (simp add: encodable_def)

lemma encodable_ascii: "\<forall>c\<in>set a. c < 0x80 \<Longrightarrow> encodable a"
proof (induction a)
  case Nil
  show ?case by (rule encodable_Nil)
next
  case (Cons c a)
  then have "encodable [c]" "encodable a"
    using not_surrogate_ascii [of c] by (auto intro: encodable_unit)
  then have "encodable ([c] @ a)" by (rule encodable_append)
  then show ?case by simp
qed

lemma hexDigit_ascii: "n < 16 \<Longrightarrow> hexDigit n < 0x80"
  by (auto simp: hexDigit_def cu_lt cu_unat)

lemma unicodeEscape_ascii: "\<forall>x\<in>set (unicodeEscape c). x < 0x80"
proof -
  have "unat c div 4096 < 16" using cu_less [of c] by simp
  then show ?thesis
    by (simp add: unicodeEscape_def hexDigit_ascii)
qed

lemma encodable_quoteChar: "encodable (quoteChar c)"
proof (cases "c = 0x08 \<or> c = 0x09 \<or> c = 0x0A \<or> c = 0x0C \<or> c = 0x0D \<or> c = 0x22 \<or> c = 0x5C")
  case True
  then have "\<forall>x\<in>set (quoteChar c). x < 0x80"
    by (auto simp: quoteChar_def)
  then show ?thesis by (rule encodable_ascii)
next
  case False
  show ?thesis
  proof (cases "c < 0x20 \<or> isHighSurrogate c \<or> isLowSurrogate c")
    case True
    with False have "quoteChar c = unicodeEscape c"
      by (simp add: quoteChar_def)
    with unicodeEscape_ascii [of c] show ?thesis
      by (simp add: encodable_ascii)
  next
    case n: False
    with False have "quoteChar c = [c]"
      by (simp add: quoteChar_def)
    with n show ?thesis by (simp add: encodable_unit)
  qed
qed

lemma encodable_quoteBody: "encodable (quoteBody s)"
proof (induction s rule: quoteBody.induct)
  case 1
  then show ?case by (simp add: encodable_Nil)
next
  case (2 c)
  then show ?case by (simp add: encodable_quoteChar)
next
  case (3 c d cs)
  show ?case
  proof (cases "isHighSurrogate c \<and> isLowSurrogate d")
    case True
    from "3.IH"(1) [OF True] obtain x where "utf8Encode (quoteBody cs) = Some x"
      by (auto simp: encodable_def)
    with True have "utf8Encode (c # d # quoteBody cs) =
        Some (utf8Bytes (pairCodePoint c d) @ x)" by simp
    with True show ?thesis by (simp add: encodable_def)
  next
    case False
    from "3.IH"(2) [OF False] encodable_quoteChar [of c]
    have "encodable (quoteChar c @ quoteBody (d # cs))"
      by (intro encodable_append)
    with False show ?thesis by auto
  qed
qed

lemma encodable_stringify: "encodable (stringifyConfig cfg)"
proof -
  have 1: "encodable (0x7B # 0x22 # js ''baseUrl'' @ [0x22, 0x3A, 0x22])"
    by (rule encodable_ascii) (simp add: js_def)
  have 2: "encodable (0x22 # 0x2C # 0x22 # js ''model'' @ [0x22, 0x3A, 0x22])"
    by (rule encodable_ascii) (simp add: js_def)
  have 3: "encodable (0x22 # 0x2C # 0x22 # js ''apiKey'' @ [0x22, 0x3A, 0x22])"
    by (rule encodable_ascii) (simp add: js_def)
  have 4: "encodable [0x22, 0x7D]"
    by (rule encodable_ascii) simp
  have "encodable ((0x7B # 0x22 # js ''baseUrl'' @ [0x22, 0x3A, 0x22]) @ quoteBody (baseUrl cfg) @
      (0x22 # 0x2C # 0x22 # js ''model'' @ [0x22, 0x3A, 0x22]) @ quoteBody (model cfg) @
      (0x22 # 0x2C # 0x22 # js ''apiKey'' @ [0x22, 0x3A, 0x22]) @ quoteBody (apiKey cfg) @
      [0x22, 0x7D])"
    by (intro encodable_append 1 2 3 4 encodable_quoteBody)
  then show ?thesis
    by (simp add: stringifyConfig_shape)
qed

lemma stringify_nonempty: "stringifyConfig cfg \<noteq> []"
  by (simp add: stringifyConfig_shape)

lemma sextets_bound: "\<forall>v\<in>set vs. v < 256 \<Longrightarrow> \<forall>x\<in>set (sextets vs). x < 64"
proof (induction vs rule: sextets.induct)
  case (1 a b c r)
  then have "a < 256" "b < 256" "c < 256" and r: "\<forall>v\<in>set r. v < 256" by simp_all
  then have "a div 4 < 64" "a mod 4 * 16 + b div 16 < 64" "b mod 16 * 4 + c div 64 < 64"
    "c mod 64 < 64"
    by (simp_all add: less_Suc_eq_le)
  with "1.IH" [OF r] show ?case by simp
next
  case (2 a b)
  then have "a < 256" "b < 256" by simp_all
  then have "a div 4 < 64" "a mod 4 * 16 + b div 16 < 64" "b mod 16 * 4 < 64"
    by (simp_all add: less_Suc_eq_le)
  then show ?case by simp
next
  case (3 a)
  then have "a < 256" by simp
  then have "a div 4 < 64" "a mod 4 * 16 < 64"
    by (simp_all add: less_Suc_eq_le)
  then show ?case by simp
next
  case 4
  then show ?case by simp
qed


lemma octets_sextets: "\<forall>v\<in>set vs. v < 256 \<Longrightarrow> octets (sextets vs) = vs"
proof (induction vs rule: sextets.induct)
  case (1 a b c r)
  then have "b < 256" "c < 256" and r: "\<forall>v\<in>set r. v < 256" by simp_all
  then have b: "b div 16 < 16" and c: "c div 64 < 4" by simp_all
  have 1: "a div 4 * 4 + (a mod 4 * 16 + b div 16) div 16 = a"
    using b by simp
  have 2: "(a mod 4 * 16 + b div 16) mod 16 * 16 + (b mod 16 * 4 + c div 64) div 4 = b"
    using b c by simp
  have 3: "(b mod 16 * 4 + c div 64) mod 4 * 64 + c mod 64 = c"
    using c by simp
  show ?case
    using "1.IH" [OF r] 1 2 3 by simp
next
  case (2 a b)
  then have "b < 256" by simp
  then have b: "b div 16 < 16" by simp
  have 1: "a div 4 * 4 + (a mod 4 * 16 + b div 16) div 16 = a"
    using b by simp
  have 2: "(a mod 4 * 16 + b div 16) mod 16 * 16 + (b mod 16 * 4) div 4 = b"
    using b by simp
  show ?case using 1 2 by simp
next
  case (3 a)
  have "a div 4 * 4 + (a mod 4 * 16) div 16 = a" by simp
  then show ?case by simp
next
  case 4
  then show ?case by simp
qed

lemma length_sextets:
  "length (sextets vs) mod 4 = (if length vs mod 3 = 0 then 0 else length vs mod 3 + 1)"
proof (induction vs rule: sextets.induct)
  case (1 a b c r)
  have "length (a # b # c # r) = length r + 3" by simp
  then have l: "length (a # b # c # r) mod 3 = length r mod 3"
    by (simp only: mod_add_self2)
  have "length (sextets (a # b # c # r)) = length (sextets r) + 4" by simp
  then have s: "length (sextets (a # b # c # r)) mod 4 = length (sextets r) mod 4"
    by (simp only: mod_add_self2)
  show ?case unfolding l s by (rule "1.IH")
qed simp_all

lemma unat_b64Char:
  assumes "v < 64"
  shows "unat (b64Char v) = (if v < 26 then 65 + v else if v < 52 then 71 + v
      else if v < 62 then v - 4 else if v = 62 then 43 else 47)"
  using assms unfolding b64Char_def by (intro cu_unat) auto

lemma cu_eq: "c = d \<longleftrightarrow> unat c = unat d" for c d :: jschar
  by (simp add: word_unat_eq_iff)

lemma b64Value_b64Char: "v < 64 \<Longrightarrow> b64Value (b64Char v) = Some v"
  unfolding b64Value_def cu_le cu_eq [of "b64Char v"]
  by (simp add: unat_b64Char) arith

lemma b64Char_props:
  assumes "v < 64"
  shows "b64Char v \<noteq> 0x3D" and "\<not> isAsciiSpace (b64Char v)"
    and "b64Char v \<noteq> 0x2D" and "b64Char v \<noteq> 0x5F"
  using assms unfolding isAsciiSpace_def cu_eq [of "b64Char v"]
  by (simp_all add: unat_b64Char) arith+

lemma urlSafe_inverse: "c \<noteq> 0x2D \<Longrightarrow> c \<noteq> 0x5F \<Longrightarrow> urlUnsafe (urlSafe c) = c"
  by (simp add: urlSafe_def urlUnsafe_def)

lemma urlSafe_eq: "c \<noteq> 0x3D \<Longrightarrow> urlSafe c \<noteq> 0x3D"
  by (simp add: urlSafe_def)

lemma urlSafe_token:
  assumes "v < 64"
  shows "isTokenChar (urlSafe (b64Char v))"
proof -
  have t: "isTokenChar c \<longleftrightarrow> (65 \<le> unat c \<and> unat c \<le> 90) \<or> (97 \<le> unat c \<and> unat c \<le> 122) \<or>
      (48 \<le> unat c \<and> unat c \<le> 57) \<or> unat c = 95 \<or> unat c = 45" for c
    by (simp add: isTokenChar_def isAsciiLetter_def isDigit_def cu_le cu_eq [of c])
  consider "v < 62" | "v = 62" | "v = 63" using assms by linarith
  then show ?thesis
  proof cases
    case 1
    then have u: "unat (b64Char v) = (if v < 26 then 65 + v else if v < 52 then 71 + v else v - 4)"
      using unat_b64Char [OF assms] by simp
    then have "unat (b64Char v) \<noteq> 43" "unat (b64Char v) \<noteq> 47"
      using 1 by (auto split: if_splits)
    then have "urlSafe (b64Char v) = b64Char v"
      by (simp add: urlSafe_def cu_eq [of "b64Char v"])
    then show ?thesis
      unfolding t using 1 u by (auto split: if_splits)
  next
    case 2
    then have "unat (b64Char v) = 43" using unat_b64Char [OF assms] by simp
    then have "b64Char v = 0x2B" by (simp add: cu_eq [of "b64Char v"])
    then show ?thesis by (simp add: urlSafe_def t)
  next
    case 3
    then have "unat (b64Char v) = 47" using unat_b64Char [OF assms] by simp
    then have "b64Char v = 0x2F" by (simp add: cu_eq [of "b64Char v"])
    then show ?thesis by (simp add: urlSafe_def t)
  qed
qed

lemma dropWhile_none: "\<forall>c\<in>set l. \<not> P c \<Longrightarrow> dropWhile P l = l"
  by (cases l) auto

lemma stripTrailingEquals_padding:
  assumes "0x3D \<notin> set y"
  shows "stripTrailingEquals (y @ replicate p 0x3D) = y"
proof -
  have 1: "dropWhile (\<lambda>c. c = 0x3D) (replicate p (0x3D :: jschar) @ l) =
      dropWhile (\<lambda>c. c = 0x3D) l" for l
    by (induction p) simp_all
  have "\<forall>c\<in>set (rev y). \<not> c = 0x3D"
    using assms by auto
  then have 2: "dropWhile (\<lambda>c. c = 0x3D) (rev y) = rev y"
    by (rule dropWhile_none)
  have "stripTrailingEquals (y @ replicate p 0x3D) =
      rev (dropWhile (\<lambda>c. c = 0x3D) (replicate p 0x3D @ rev y))"
    by (simp add: stripTrailingEquals_def)
  then show ?thesis
    unfolding 1 2 by simp
qed

lemma stripPadding_none:
  assumes "0x3D \<notin> set x"
  shows "stripPadding x = x"
proof (cases "rev x")
  case Nil
  then show ?thesis by (simp add: stripPadding_def)
next
  case (Cons a l)
  then have "a \<in> set x" by (metis list.set_intros(1) set_rev)
  with assms have a: "a \<noteq> 0x3D" by auto
  show ?thesis
    using a Cons by (cases l) (simp_all add: stripPadding_def)
qed

lemma stripPadding_one:
  assumes "0x3D \<notin> set x"
  shows "stripPadding (x @ [0x3D]) = x"
proof (cases "rev x")
  case Nil
  then show ?thesis by (simp add: stripPadding_def)
next
  case (Cons a l)
  then have "a \<in> set x" by (metis list.set_intros(1) set_rev)
  with assms have a: "a \<noteq> 0x3D" by auto
  have x: "rev (a # l) = x" using Cons by (metis rev_rev_ident)
  have "stripPadding (x @ [0x3D]) = rev (a # l)"
    using a by (simp add: stripPadding_def Cons)
  then show ?thesis
    unfolding x .
qed

lemma stripPadding_two: "stripPadding (x @ [0x3D, 0x3D]) = x"
  by (simp add: stripPadding_def)

lemma stripPadding_padding:
  assumes "0x3D \<notin> set x" and "q \<le> 2"
  shows "stripPadding (x @ replicate q 0x3D) = x"
proof -
  consider "q = 0" | "q = 1" | "q = 2" using assms(2) by linarith
  then show ?thesis
  proof cases
    case 1
    with stripPadding_none [OF assms(1)] show ?thesis by simp
  next
    case 2
    with stripPadding_one [OF assms(1)] show ?thesis by simp
  next
    case 3
    with stripPadding_two [of x] show ?thesis by (simp add: numeral_2_eq_2)
  qed
qed


lemma replace_urlSafe: "replaceAll 0x2F 0x5F (replaceAll 0x2B 0x2D s) = map urlSafe s"
  by (simp add: replaceAll_def urlSafe_def)

lemma replace_urlUnsafe: "replaceAll 0x5F 0x2F (replaceAll 0x2D 0x2B s) = map urlUnsafe s"
  by (simp add: replaceAll_def urlUnsafe_def)

lemma urlSafe_equals: "urlSafe 0x3D = 0x3D"
  by (simp add: urlSafe_def)

lemma token_of_sextets:
  assumes "\<forall>v\<in>set S. v < 64"
  shows "0x3D \<notin> set (map urlSafe (map b64Char S))"
    and "\<forall>c\<in>set (map urlSafe (map b64Char S)). isTokenChar c"
    and "map urlUnsafe (map urlSafe (map b64Char S)) = map b64Char S"
    and "0x3D \<notin> set (map b64Char S)"
    and "filter (\<lambda>c. \<not> isAsciiSpace c) (map b64Char S) = map b64Char S"
    and "those (map b64Value (map b64Char S)) = Some S"
  using assms
proof (induction S)
  case Nil
  {
    case 1 show ?case by simp
  next
    case 2 show ?case by simp
  next
    case 3 show ?case by simp
  next
    case 4 show ?case by simp
  next
    case 5 show ?case by simp
  next
    case 6 show ?case by simp
  }
next
  case (Cons v S)
  {
    case 1
    then have v: "v < 64" and S: "\<forall>v\<in>set S. v < 64" by simp_all
    from Cons.IH(1) [OF S] urlSafe_eq [OF b64Char_props(1) [OF v]] show ?case by simp
  next
    case 2
    then have v: "v < 64" and S: "\<forall>v\<in>set S. v < 64" by simp_all
    from Cons.IH(2) [OF S] urlSafe_token [OF v] show ?case by simp
  next
    case 3
    then have v: "v < 64" and S: "\<forall>v\<in>set S. v < 64" by simp_all
    from Cons.IH(3) [OF S] urlSafe_inverse [OF b64Char_props(3,4) [OF v]] show ?case by simp
  next
    case 4
    then have v: "v < 64" and S: "\<forall>v\<in>set S. v < 64" by simp_all
    from Cons.IH(4) [OF S] b64Char_props(1) [OF v] show ?case by auto
  next
    case 5
    then have v: "v < 64" and S: "\<forall>v\<in>set S. v < 64" by simp_all
    from Cons.IH(5) [OF S] b64Char_props(2) [OF v] show ?case by simp
  next
    case 6
    then have v: "v < 64" and S: "\<forall>v\<in>set S. v < 64" by simp_all
    from Cons.IH(6) [OF S] b64Value_b64Char [OF v] show ?case by simp
  }
qed

lemma toBase64Url_sextets:
  assumes "utf8Encode str = Some B"
  shows "toBase64Url str = map urlSafe (map b64Char (sextets (map unat B)))"
proof -
  let ?S = "sextets (map unat B)"
  have bound: "\<forall>b\<in>set B. unat b \<le> 0xFF"
    using assms by (rule utf8Encode_bound)
  then have nb: "\<not> (\<exists>c\<in>set B. 0xFF < c)"
    by (auto simp: cu_lt)
  have "\<forall>v\<in>set (map unat B). v < 256"
    using bound by auto
  then have S: "\<forall>v\<in>set ?S. v < 64" by (rule sextets_bound)
  have b: "btoa B = Some (map b64Char ?S @ replicate ((3 - length B mod 3) mod 3) 0x3D)"
    using nb by (simp add: btoa_def)
  have "toBase64Url str =
      stripTrailingEquals (map urlSafe (map b64Char ?S @ replicate ((3 - length B mod 3) mod 3) 0x3D))"
    by (simp add: toBase64Url_def assms b replace_urlSafe)
  also have "\<dots> = stripTrailingEquals
      (map urlSafe (map b64Char ?S) @ replicate ((3 - length B mod 3) mod 3) 0x3D)"
    by (simp add: urlSafe_equals)
  also have "\<dots> = map urlSafe (map b64Char ?S)"
    using token_of_sextets(1) [OF S] by (rule stripTrailingEquals_padding)
  finally show ?thesis .
qed

lemma atob_padded:
  assumes "\<forall>v\<in>set S. v < 64" and "length S mod 4 \<noteq> 1" and "q \<le> 2"
    and "(length S + q) mod 4 = 0"
  shows "atob (map b64Char S @ replicate q 0x3D) = Some (map of_nat (octets S))"
proof -
  let ?X = "map b64Char S"
  have f: "filter (\<lambda>c. \<not> isAsciiSpace c) (?X @ replicate q 0x3D) = ?X @ replicate q 0x3D"
    using token_of_sextets(5) [OF assms(1)] by (simp add: isAsciiSpace_def)
  have l: "length (?X @ replicate q 0x3D) mod 4 = 0"
    using assms(4) by simp
  have s: "stripPadding (?X @ replicate q 0x3D) = ?X"
    using token_of_sextets(4) [OF assms(1)] assms(3) by (rule stripPadding_padding)
  have n: "length ?X mod 4 \<noteq> 1"
    using assms(2) by simp
  have e: "(if length (?X @ replicate q 0x3D) mod 4 = 0 then stripPadding (?X @ replicate q 0x3D)
      else ?X @ replicate q 0x3D) = ?X"
    unfolding l s by simp
  show ?thesis
    unfolding atob_def f Let_def e token_of_sextets(6) [OF assms(1)]
    using n by simp
qed

lemma fromBase64Url_sextets:
  assumes "\<forall>v\<in>set S. v < 64" and "length S mod 4 \<noteq> 1"
  shows "fromBase64Url (map urlSafe (map b64Char S)) = utf8Decode (map of_nat (octets S))"
proof -
  let ?X = "map b64Char S"
  define q where "q = (if length S mod 4 \<noteq> 0 then 4 - length S mod 4 else 0)"
  have u: "replaceAll 0x5F 0x2F (replaceAll 0x2D 0x2B (map urlSafe ?X)) = ?X"
    unfolding replace_urlUnsafe by (rule token_of_sextets(3) [OF assms(1)])
  have p: "(if length ?X mod 4 \<noteq> 0 then ?X @ replicate (4 - length ?X mod 4) 0x3D else ?X) =
      ?X @ replicate q 0x3D"
    by (simp add: q_def)
  have "length S mod 4 < 4" by simp
  with assms(2) have q: "q \<le> 2" "(length S + q) mod 4 = 0"
    unfolding q_def by (auto simp: mod_eq_0_iff_dvd) presburger+
  show ?thesis
    unfolding fromBase64Url_def Let_def u p
    by (simp add: atob_padded [OF assms q])
qed

lemma base64url_roundtrip:
  assumes "utf8Encode str = Some B"
  shows "fromBase64Url (toBase64Url str) = Some str"
proof -
  let ?S = "sextets (map unat B)"
  have bound: "\<forall>v\<in>set (map unat B). v < 256"
    using utf8Encode_bound [OF assms] by auto
  then have S: "\<forall>v\<in>set ?S. v < 64" by (rule sextets_bound)
  have l: "length ?S mod 4 \<noteq> 1"
    by (simp add: length_sextets)
  have o: "map of_nat (octets ?S) = B"
    unfolding octets_sextets [OF bound] by (simp add: map_idI)
  show ?thesis
    unfolding toBase64Url_sextets [OF assms] fromBase64Url_sextets [OF S l] o
    using assms by (rule utf8_roundtrip)
qed

lemma sextets_nonempty: "vs \<noteq> [] \<Longrightarrow> sextets vs \<noteq> []"
  by (cases vs rule: sextets.cases) auto

lemma token_props:
  assumes "utf8Encode s = Some B" and "s \<noteq> []"
  shows "toBase64Url s \<noteq> []" and "\<forall>c\<in>set (toBase64Url s). isTokenChar c"
proof -
  let ?S = "sextets (map unat B)"
  have "\<forall>v\<in>set (map unat B). v < 256"
    using utf8Encode_bound [OF assms(1)] by auto
  then have S: "\<forall>v\<in>set ?S. v < 64" by (rule sextets_bound)
  have "B \<noteq> []"
    using assms by (rule utf8Encode_nonempty)
  then have "?S \<noteq> []" by (simp add: sextets_nonempty)
  then show "toBase64Url s \<noteq> []"
    unfolding toBase64Url_sextets [OF assms(1)] by simp
  show "\<forall>c\<in>set (toBase64Url s). isTokenChar c"
    unfolding toBase64Url_sextets [OF assms(1)] by (rule token_of_sextets(2) [OF S])
qed

lemma cfgMatch_token:
  assumes "t \<noteq> []" and "\<forall>c\<in>set t. isTokenChar c"
  shows "cfgMatch (js ''#cfg='' @ t) = Some t"
proof -
  have tw: "takeWhile isTokenChar t = t"
    using assms(2) by (simp add: takeWhile_eq_all_conv)
  show ?thesis
    using assms(1) by (simp add: js_def tw)
qed

lemma locationHash_link:
  assumes "0x23 \<notin> set base"
  shows "locationHash (base @ js ''#cfg='' @ t) = js ''#cfg='' @ t"
proof -
  have "dropWhile (\<lambda>c. c \<noteq> 0x23) (base @ 0x23 # (js ''cfg='' @ t)) = 0x23 # (js ''cfg='' @ t)"
    using assms by (intro dropWhile_all_then) auto
  then show ?thesis
    by (simp add: locationHash_def js_def)
qed

lemma sanitize_parsed:
  "sanitizeConfig cur (JObject [(js ''baseUrl'', JString b), (js ''model'', JString m),
       (js ''apiKey'', JString k)]) =
     Some \<lparr>baseUrl = (if trim b \<noteq> [] then trim b else baseUrl cur),
           model = (if trim m \<noteq> [] then trim m else model cur),
           apiKey = k\<rparr>"
  by (simp add: sanitizeConfig_def stringProp_def getProp_def js_def)

lemma decode_token:
  assumes "utf8Encode json = Some B" and "json \<noteq> []"
  shows "parseMagicLinkFromHash cur (js ''#cfg='' @ toBase64Url json) =
     (case jsonParse json of None \<Rightarrow> None | Some obj \<Rightarrow> sanitizeConfig cur obj)"
proof -
  let ?t = "toBase64Url json"
  have n: "(js ''#cfg='' @ ?t = []) = False"
    by (simp add: js_def)
  have m: "cfgMatch (js ''#cfg='' @ ?t) = Some ?t"
    using token_props [OF assms] by (rule cfgMatch_token)
  have d: "fromBase64Url ?t = Some json"
    using assms(1) by (rule base64url_roundtrip)
  show ?thesis
    unfolding parseMagicLinkFromHash_def
    by (simp only: n m d assms(2) if_False option.case)
qed

lemma link_roundtrip:
  assumes "0x23 \<notin> set base"
  shows "parseMagicLinkFromHash cur (locationHash (buildMagicLink base cfg)) =
     Some \<lparr>baseUrl = (if trim (baseUrl cfg) \<noteq> [] then trim (baseUrl cfg) else baseUrl cur),
           model = (if trim (model cfg) \<noteq> [] then trim (model cfg) else model cur),
           apiKey = apiKey cfg\<rparr>"
proof -
  from encodable_stringify [of cfg] obtain B where B: "utf8Encode (stringifyConfig cfg) = Some B"
    by (auto simp: encodable_def)
  have h: "locationHash (buildMagicLink base cfg) = js ''#cfg='' @ toBase64Url (stringifyConfig cfg)"
    unfolding buildMagicLink_def using assms by (rule locationHash_link)
  show ?thesis
    unfolding h decode_token [OF B stringify_nonempty]
    by (simp add: jsonParse_stringify sanitize_parsed)
qed

section \<open>Decoding a link built by the encoder\<close>

text \<open>
  Claim C3, amended. For every configuration record, whatever code units its three
  fields hold, the link built from it by \<open>buildMagicLink\<close> is read back by
  \<open>parseMagicLinkFromHash\<close> as: the \<open>apiKey\<close> unchanged; \<open>baseUrl\<close> and \<open>model\<close> without
  their leading and trailing white space, and when one of them is empty or blank the
  value the component holds at that moment in its place. So reading back what was built
  gives the record itself whenever \<open>baseUrl\<close> and \<open>model\<close> are non-blank and begin and end
  with no white space. The page address before the fragment holds no \<open>#\<close>.
\<close>

theorem link_decode_after_encode:
  assumes "0x23 \<notin> set base"
  shows "parseMagicLinkFromHash cur (locationHash (buildMagicLink base cfg)) =
           Some \<lparr>baseUrl = (if trim (baseUrl cfg) \<noteq> [] then trim (baseUrl cfg) else baseUrl cur),
                 model = (if trim (model cfg) \<noteq> [] then trim (model cfg) else model cur),
                 apiKey = apiKey cfg\<rparr> \<and>
         (baseUrl cfg \<noteq> [] \<and> trim (baseUrl cfg) = baseUrl cfg \<and>
          model cfg \<noteq> [] \<and> trim (model cfg) = model cfg \<longrightarrow>
            parseMagicLinkFromHash cur (locationHash (buildMagicLink base cfg)) = Some cfg)"
  unfolding link_roundtrip [OF assms] by simp

theorem link_decode_after_encode_witness:
  "0x23 \<notin> set (js ''https://x.org/app/'') \<and>
   trim (js ''http://a+b/c='') = js ''http://a+b/c='' \<and>
   trim [0x20AC, 0xD83D, 0xDE00] = [0x20AC, 0xD83D, 0xDE00] \<and>
   parseMagicLinkFromHash (settings initialApp)
     (locationHash (buildMagicLink (js ''https://x.org/app/'')
        \<lparr>baseUrl = js ''http://a+b/c='', model = [0x20AC, 0xD83D, 0xDE00], apiKey = []\<rparr>)) =
     Some \<lparr>baseUrl = js ''http://a+b/c='', model = [0x20AC, 0xD83D, 0xDE00], apiKey = []\<rparr>"
proof -
  have 1: "0x23 \<notin> set (js ''https://x.org/app/'')"
    by (simp add: js_def)
  have 2: "trim (js ''http://a+b/c='') = js ''http://a+b/c=''"
    "trim [0x20AC, 0xD83D, 0xDE00] = [0x20AC, 0xD83D, 0xDE00]"
    by (simp_all add: js_def trim_def isSpace_def isLineTerminator_def)
  have 3: "js ''http://a+b/c='' \<noteq> []"
    by (simp add: js_def)
  show ?thesis
    using 1 2 3
      link_decode_after_encode [OF 1, where cur = "settings initialApp"
        and cfg = "\<lparr>baseUrl = js ''http://a+b/c='', model = [0x20AC, 0xD83D, 0xDE00], apiKey = []\<rparr>"]
    by simp
qed

text \<open>
  With an empty \<open>baseUrl\<close> the record does not come back: the default address of the
  component takes its place.
\<close>

theorem empty_baseUrl_counterexample:
  "parseMagicLinkFromHash (settings initialApp)
     (locationHash (buildMagicLink (js ''https://x.org/app/'')
        \<lparr>baseUrl = [], model = js ''m'', apiKey = js ''k''\<rparr>)) =
     Some \<lparr>baseUrl = js ''https://api.openai.com/v1'', model = js ''m'', apiKey = js ''k''\<rparr> \<and>
   parseMagicLinkFromHash (settings initialApp)
     (locationHash (buildMagicLink (js ''https://x.org/app/'')
        \<lparr>baseUrl = [], model = js ''m'', apiKey = js ''k''\<rparr>)) \<noteq>
     Some \<lparr>baseUrl = [], model = js ''m'', apiKey = js ''k''\<rparr>"
proof -
  have 1: "0x23 \<notin> set (js ''https://x.org/app/'')"
    by (simp add: js_def)
  have 2: "trim (js ''m'') = js ''m''" "js ''m'' \<noteq> []" "js ''https://api.openai.com/v1'' \<noteq> []"
    by (simp_all add: js_def trim_def isSpace_def isLineTerminator_def)
  show ?thesis
    unfolding link_roundtrip [OF 1] using 2 by (simp add: initialApp_def trim_def)
qed


lemma utf8Encode_ascii: "\<forall>c\<in>set a. c < 0x80 \<Longrightarrow> utf8Encode a = Some a"
proof (induction a)
  case Nil
  show ?case by simp
next
  case (Cons c a)
  then have c: "c < 0x80" and a: "utf8Encode a = Some a" by simp_all
  have u: "unat c < 0x80" using c by (simp add: cu_lt)
  have "utf8Encode [c] = Some [c]"
    using not_surrogate_ascii [OF c] u by (simp add: utf8Bytes_def)
  from utf8Encode_append [OF this a] show ?case by simp
qed

lemma jsonParse_Nil: "jsonParse [] = None"
  by (simp add: jsonParse_def)

section \<open>Decoding as a patch\<close>

text \<open>
  Claim C8, amended. When the token of a link carries the text of a JSON object, the
  decoded configuration takes each of \<open>baseUrl\<close> and \<open>model\<close> from the object when it is
  a non-blank string there, trimmed, and from the current value otherwise; it takes
  \<open>apiKey\<close> from the object whenever it is a string there, the empty and the blank string
  included, and from the current value only when the object has no string of that name.
  Each field is decided by the member of its own name alone (\<open>map_of (rev ms)\<close> is the
  last member of a name among the members \<open>ms\<close> of the object).
\<close>

theorem decode_is_patch:
  assumes "utf8Encode json = Some B" and "jsonParse json = Some (JObject ms)"
  shows "parseMagicLinkFromHash cur (js ''#cfg='' @ toBase64Url json) =
     Some \<lparr>baseUrl = (case map_of (rev ms) (js ''baseUrl'') of
                         Some (JString v) \<Rightarrow> if trim v = [] then baseUrl cur else trim v
                       | _ \<Rightarrow> baseUrl cur),
           model = (case map_of (rev ms) (js ''model'') of
                       Some (JString v) \<Rightarrow> if trim v = [] then model cur else trim v
                     | _ \<Rightarrow> model cur),
           apiKey = (case map_of (rev ms) (js ''apiKey'') of
                        Some (JString v) \<Rightarrow> v
                      | _ \<Rightarrow> apiKey cur)\<rparr>"
proof -
  have n: "json \<noteq> []"
    using assms(2) jsonParse_Nil by auto
  show ?thesis
    unfolding decode_token [OF assms(1) n] assms(2)
    by (auto simp: sanitizeConfig_def stringProp_def getProp_def split: option.splits json.splits)
qed

lemma patch_example_text:
  \<open>\<forall>c\<in>set (js ''{"model":" m ","apiKey":""}''). c < 0x80\<close>
  \<open>jsonParse (js ''{"model":" m ","apiKey":""}'') =
     Some (JObject [(js ''model'', JString (js '' m '')), (js ''apiKey'', JString [])])\<close>
  \<open>toBase64Url (js ''{"model":" m ","apiKey":""}'') = js ''eyJtb2RlbCI6IiBtICIsImFwaUtleSI6IiJ9''\<close>
  by code_simp+


theorem decode_is_patch_witness:
  \<open>utf8Encode (js ''{"model":" m ","apiKey":""}'') = Some (js ''{"model":" m ","apiKey":""}'') \<and>
   jsonParse (js ''{"model":" m ","apiKey":""}'') =
     Some (JObject [(js ''model'', JString (js '' m '')), (js ''apiKey'', JString [])]) \<and>
   parseMagicLinkFromHash \<lparr>baseUrl = js ''http://localhost:11434/v1'', model = js ''llama3'',
       apiKey = js ''sk-1''\<rparr>
     (js ''#cfg=eyJtb2RlbCI6IiBtICIsImFwaUtleSI6IiJ9'') =
     Some \<lparr>baseUrl = js ''http://localhost:11434/v1'', model = js ''m'', apiKey = []\<rparr>\<close>
proof -
  let ?j = \<open>js ''{"model":" m ","apiKey":""}''\<close>
  have 1: "utf8Encode ?j = Some ?j"
    using patch_example_text(1) by (rule utf8Encode_ascii)
  have 2: "map_of (rev [(js ''model'', JString (js '' m '')), (js ''apiKey'', JString [])])
      (js ''baseUrl'') = None"
    "map_of (rev [(js ''model'', JString (js '' m '')), (js ''apiKey'', JString [])])
      (js ''model'') = Some (JString (js '' m ''))"
    "map_of (rev [(js ''model'', JString (js '' m '')), (js ''apiKey'', JString [])])
      (js ''apiKey'') = Some (JString [])"
    by (simp_all add: js_def)
  have 3: "trim (js '' m '') = js ''m''" "js ''m'' \<noteq> []"
    by (simp_all add: js_def trim_def isSpace_def isLineTerminator_def)
  have 4: "js ''#cfg='' @ js ''eyJtb2RlbCI6IiBtICIsImFwaUtleSI6IiJ9'' =
      js ''#cfg=eyJtb2RlbCI6IiBtICIsImFwaUtleSI6IiJ9''"
    by (simp add: js_def)
  from decode_is_patch [OF 1 patch_example_text(2),
      of "\<lparr>baseUrl = js ''http://localhost:11434/v1'', model = js ''llama3'', apiKey = js ''sk-1''\<rparr>"]
  show ?thesis
    unfolding patch_example_text(3) 2 4 using 1 patch_example_text(2) by (simp add: 3)
qed

text \<open>
  For \<open>apiKey\<close> the rule of the other two fields does not hold: a blank key in the token
  is kept, and the key held by the component is lost.
\<close>

lemma blank_key_text:
  \<open>\<forall>c\<in>set (js ''{"apiKey":"  "}''). c < 0x80\<close>
  \<open>jsonParse (js ''{"apiKey":"  "}'') = Some (JObject [(js ''apiKey'', JString (js ''  ''))])\<close>
  \<open>toBase64Url (js ''{"apiKey":"  "}'') = js ''eyJhcGlLZXkiOiIgICJ9''\<close>
  by code_simp+

theorem blank_apiKey_counterexample:
  "trim (js ''  '') = [] \<and>
   parseMagicLinkFromHash
     \<lparr>baseUrl = js ''https://api.openai.com/v1'', model = js ''gpt-4o-mini'', apiKey = js ''sk-1''\<rparr>
     (js ''#cfg=eyJhcGlLZXkiOiIgICJ9'') =
     Some \<lparr>baseUrl = js ''https://api.openai.com/v1'', model = js ''gpt-4o-mini'',
           apiKey = js ''  ''\<rparr> \<and>
   js ''  '' \<noteq> js ''sk-1''"
proof -
  let ?j = \<open>js ''{"apiKey":"  "}''\<close>
  let ?cur = "\<lparr>baseUrl = js ''https://api.openai.com/v1'', model = js ''gpt-4o-mini'',
      apiKey = js ''sk-1''\<rparr>"
  have 1: "utf8Encode ?j = Some ?j"
    using blank_key_text(1) by (rule utf8Encode_ascii)
  have n: "?j \<noteq> []" by (simp add: js_def)
  have 4: "js ''#cfg='' @ js ''eyJhcGlLZXkiOiIgICJ9'' = js ''#cfg=eyJhcGlLZXkiOiIgICJ9''"
    by (simp add: js_def)
  have 5: "sanitizeConfig ?cur (JObject [(js ''apiKey'', JString (js ''  ''))]) =
      Some \<lparr>baseUrl = js ''https://api.openai.com/v1'', model = js ''gpt-4o-mini'',
            apiKey = js ''  ''\<rparr>"
    by (simp add: sanitizeConfig_def stringProp_def getProp_def) (simp add: js_def)
  have 6: "trim (js ''  '') = []" "js ''  '' \<noteq> js ''sk-1''"
    by (simp_all add: js_def trim_def isSpace_def isLineTerminator_def)
  from decode_token [OF 1 n, of ?cur]
  have "parseMagicLinkFromHash ?cur (js ''#cfg=eyJhcGlLZXkiOiIgICJ9'') =
     Some \<lparr>baseUrl = js ''https://api.openai.com/v1'', model = js ''gpt-4o-mini'',
           apiKey = js ''  ''\<rparr>"
    unfolding blank_key_text(2,3) 4 by (simp add: 5)
  with 6 show ?thesis by simp
qed

end
